theory Spec2Isabelle
  imports Main
begin

section \<open>Python strings\<close>

text \<open>The string operations of \<^verbatim>\<open>run_myco.py\<close>: \<^verbatim>\<open>str.strip()\<close>, \<^verbatim>\<open>str.split(sep)\<close>,
  \<^verbatim>\<open>str.split()\<close>, \<^verbatim>\<open>sub in s\<close>, \<^verbatim>\<open>str.isdigit()\<close> and the f-string \<^verbatim>\<open>f":{port}"\<close>. A
  character is a code point below 256; among these, Python's whitespace is the ASCII
  whitespace with U+0085 and U+00A0, and its digits are 0 to 9 with the superscripts U+00B2,
  U+00B3 and U+00B9.\<close>

definition isspace :: "char \<Rightarrow> bool" where
  "isspace c = (c = CHR '' '' \<or> c = CHR 0x09 \<or> c = CHR 0x0A \<or> c = CHR 0x0B \<or> c = CHR 0x0C
     \<or> c = CHR 0x0D \<or> c = CHR 0x1C \<or> c = CHR 0x1D \<or> c = CHR 0x1E \<or> c = CHR 0x1F
     \<or> c = CHR 0x85 \<or> c = CHR 0xA0)"

definition strip :: "string \<Rightarrow> string" where
  "strip s = rev (dropWhile isspace (rev (dropWhile isspace s)))"

fun split_when :: "(char \<Rightarrow> bool) \<Rightarrow> string \<Rightarrow> string list" where
  "split_when P [] = [[]]"
| "split_when P (c # cs) =
     (if P c then [] # split_when P cs
      else (case split_when P cs of w # ws \<Rightarrow> (c # w) # ws | [] \<Rightarrow> [[c]]))"

definition split_on :: "char \<Rightarrow> string \<Rightarrow> string list" where
  "split_on sep s = split_when (\<lambda>c. c = sep) s"

definition split_ws :: "string \<Rightarrow> string list" where
  "split_ws s = filter (\<lambda>w. w \<noteq> []) (split_when isspace s)"

fun starts_with :: "string \<Rightarrow> string \<Rightarrow> bool" where
  "starts_with [] s = True"
| "starts_with (p # ps) [] = False"
| "starts_with (p # ps) (c # cs) = (p = c \<and> starts_with ps cs)"

fun contains :: "string \<Rightarrow> string \<Rightarrow> bool" where
  "contains sub [] = (sub = [])"
| "contains sub (c # cs) = (starts_with sub (c # cs) \<or> contains sub cs)"

definition isdigit :: "string \<Rightarrow> bool" where
  "isdigit s = (s \<noteq> [] \<and>
     list_all (\<lambda>c. c \<in> set ''0123456789'' \<or> c = CHR 0xB2 \<or> c = CHR 0xB3 \<or> c = CHR 0xB9) s)"

fun str_nat :: "nat \<Rightarrow> string" where
  "str_nat n = (if n < 10 then [''0123456789'' ! n]
                else str_nat (n div 10) @ [''0123456789'' ! (n mod 10)])"

definition port_arg :: "nat \<Rightarrow> string" where
  "port_arg port = CHR '':'' # str_nat port"

section \<open>Exceptions, outcomes and the effect monad\<close>

datatype exn = OSError | FileNotFoundError | SubprocessError | TimeoutExpired
  | CalledProcessError | UnicodeDecodeError | RuntimeError | KeyboardInterrupt
  | SystemExit int | OtherError

fun is_OSError :: "exn \<Rightarrow> bool" where
  "is_OSError OSError = True"
| "is_OSError FileNotFoundError = True"
| "is_OSError _ = False"

fun is_SubprocessError :: "exn \<Rightarrow> bool" where
  "is_SubprocessError SubprocessError = True"
| "is_SubprocessError TimeoutExpired = True"
| "is_SubprocessError CalledProcessError = True"
| "is_SubprocessError _ = False"

definition os_or_subprocess :: "exn \<Rightarrow> bool" where
  "os_or_subprocess e = (is_OSError e \<or> is_SubprocessError e)"

text \<open>A call returns a value, raises, or never returns (it is blocked in a read or a wait
  that has no timeout).\<close>

datatype 'a res = Ret 'a | Raise exn | Blocked

datatype read_outcome = RLine string | RUndecodable | REof | RRaise exn | RHang

datatype drain_outcome = Drained | DrainRaise exn | DrainForever

datatype event =
    Ran "string list" int
  | Failed "string list" exn
  | Spawned "string list" nat
  | Sleep nat
  | Terminate nat
  | Kill nat
  | Cleanup_begin
  | Cleanup_end
  | Signal_received int
  | Log_ready string
  | Log_terminated string
  | Log_timeout string

text \<open>The outside world, as oracles. \<open>exec\<close> answers \<^verbatim>\<open>subprocess.run\<close> (the exception it
  raises, or return code and captured stdout) and \<open>spawn\<close> answers \<^verbatim>\<open>subprocess.Popen\<close>, both
  at a global step number; the behaviour of the \<open>h\<close>-th launched process is asked by the
  number of the query on it. \<open>read_dur\<close> is the time in milliseconds a \<^verbatim>\<open>readline\<close> takes.
  At most one signal arrives, before the step \<open>signal_at\<close>.\<close>

record env =
  path_exists :: "string \<Rightarrow> bool"
  exec :: "nat \<Rightarrow> string list \<Rightarrow> exn + int \<times> string"
  spawn :: "nat \<Rightarrow> string list \<Rightarrow> exn option"
  os_poll :: "nat \<Rightarrow> nat \<Rightarrow> int option"
  os_wait :: "nat \<Rightarrow> nat \<Rightarrow> nat \<Rightarrow> int option"
  os_wait_forever :: "nat \<Rightarrow> nat \<Rightarrow> int option"
  os_readline :: "nat \<Rightarrow> nat \<Rightarrow> read_outcome"
  read_dur :: "nat \<Rightarrow> nat \<Rightarrow> nat"
  os_drain :: "nat \<Rightarrow> drain_outcome"
  signal_at :: "nat option"
  signum :: int

text \<open>The \<^verbatim>\<open>MycoRunner\<close> object (\<open>processes\<close>, \<open>server2_process\<close>, \<open>server1_process\<close>, holding
  handles of \<^verbatim>\<open>Popen\<close> objects), the \<^verbatim>\<open>Popen\<close> objects (\<open>returncode\<close> per handle), the local
  \<open>killed_any\<close> of \<^verbatim>\<open>cleanup_ports\<close>, and the world: step counter, clock in milliseconds,
  and the trace of what was done.\<close>

record st =
  processes :: "nat list"
  server2_process :: "nat option"
  server1_process :: "nat option"
  returncode :: "nat \<Rightarrow> int option"
  nq :: "nat \<Rightarrow> nat"
  nreads :: "nat \<Rightarrow> nat"
  nobjs :: nat
  killed_any :: bool
  tick :: nat
  clock :: nat
  trace :: "event list"

type_synonym 'a m = "st \<Rightarrow> 'a res \<times> st"

definition return :: "'a \<Rightarrow> 'a m" where
  "return x s = (Ret x, s)"

definition raise :: "exn \<Rightarrow> 'a m" where
  "raise e s = (Raise e, s)"

definition bnd :: "'a m \<Rightarrow> ('a \<Rightarrow> 'b m) \<Rightarrow> 'b m" where
  "bnd f g s = (case f s of
      (Ret x, s') \<Rightarrow> g x s'
    | (Raise e, s') \<Rightarrow> (Raise e, s')
    | (Blocked, s') \<Rightarrow> (Blocked, s'))"

definition thn :: "'a m \<Rightarrow> 'b m \<Rightarrow> 'b m" where
  "thn f g = bnd f (\<lambda>_. g)"

text \<open>\<^verbatim>\<open>try: f  except C: h\<close>\<close>

definition try_except :: "'a m \<Rightarrow> (exn \<Rightarrow> bool) \<Rightarrow> 'a m \<Rightarrow> 'a m" where
  "try_except f C h s = (case f s of
      (Raise e, s') \<Rightarrow> (if C e then h s' else (Raise e, s'))
    | r \<Rightarrow> r)"

text \<open>\<^verbatim>\<open>try: f  finally: g\<close>: \<open>g\<close> runs however \<open>f\<close> ends, unless \<open>f\<close> never ends; what \<open>g\<close>
  raises replaces the outcome of \<open>f\<close>.\<close>

definition try_finally :: "'a m \<Rightarrow> unit m \<Rightarrow> 'a m" where
  "try_finally f g s = (case f s of
      (Blocked, s') \<Rightarrow> (Blocked, s')
    | (r, s') \<Rightarrow> (case g s' of
          (Ret _, s'') \<Rightarrow> (r, s'')
        | (Raise e, s'') \<Rightarrow> (Raise e, s'')
        | (Blocked, s'') \<Rightarrow> (Blocked, s'')))"

primrec for_each :: "'a list \<Rightarrow> ('a \<Rightarrow> unit m) \<Rightarrow> unit m" where
  "for_each [] f = return ()"
| "for_each (x # xs) f = bnd (f x) (\<lambda>_. for_each xs f)"

definition emit :: "event \<Rightarrow> unit m" where
  "emit e s = (Ret (), s\<lparr>trace := trace s @ [e]\<rparr>)"

section \<open>Primitive actions\<close>

text \<open>Every action on the outside world is a point where the pending signal is delivered:
  the installed handler \<open>hdl\<close> runs there, before the action.\<close>

definition check :: "unit m \<Rightarrow> env \<Rightarrow> unit m" where
  "check hdl env s =
     (if signal_at env = Some (tick s) then hdl (s\<lparr>tick := Suc (tick s)\<rparr>)
      else (Ret (), s\<lparr>tick := Suc (tick s)\<rparr>))"

definition subprocess_run :: "unit m \<Rightarrow> env \<Rightarrow> string list \<Rightarrow> (int \<times> string) m" where
  "subprocess_run hdl env argv = bnd (check hdl env) (\<lambda>_ s.
     case exec env (tick s) argv of
       Inl e \<Rightarrow> (Raise e, s\<lparr>trace := trace s @ [Failed argv e]\<rparr>)
     | Inr (rc, out) \<Rightarrow> (Ret (rc, out), s\<lparr>trace := trace s @ [Ran argv rc]\<rparr>))"

definition sleep :: "unit m \<Rightarrow> env \<Rightarrow> nat \<Rightarrow> unit m" where
  "sleep hdl env ms = bnd (check hdl env) (\<lambda>_ s.
     (Ret (), s\<lparr>clock := clock s + ms, trace := trace s @ [Sleep ms]\<rparr>))"

section \<open>check_ports_free\<close>

definition ports :: "nat list" where
  "ports = [3002, 3004]"

text \<open>One round of the loop of \<^verbatim>\<open>check_ports_free\<close>: \<open>Some False\<close> is the early
  \<^verbatim>\<open>return False\<close>, \<open>None\<close> goes on to the next port.\<close>

definition check_port :: "unit m \<Rightarrow> env \<Rightarrow> nat \<Rightarrow> bool option m" where
  "check_port hdl env port =
     try_except
       (bnd (subprocess_run hdl env [''lsof'', ''-ti'', port_arg port]) (\<lambda>(rc, out).
          if rc = 0 \<and> strip out \<noteq> [] then return (Some False) else return None))
       os_or_subprocess
       (return None)"

primrec check_ports_loop :: "unit m \<Rightarrow> env \<Rightarrow> nat list \<Rightarrow> bool m" where
  "check_ports_loop hdl env [] = return True"
| "check_ports_loop hdl env (port # rest) =
     bnd (check_port hdl env port) (\<lambda>r.
       case r of Some b \<Rightarrow> return b | None \<Rightarrow> check_ports_loop hdl env rest)"

definition check_ports_free :: "unit m \<Rightarrow> env \<Rightarrow> bool m" where
  "check_ports_free hdl env = check_ports_loop hdl env ports"

section \<open>cleanup_ports\<close>

definition set_killed_any :: "bool \<Rightarrow> unit m" where
  "set_killed_any b s = (Ret (), s\<lparr>killed_any := b\<rparr>)"

text \<open>Method 1, the body of \<^verbatim>\<open>for pid in pids\<close>.\<close>

definition kill_lsof_pid :: "unit m \<Rightarrow> env \<Rightarrow> string \<Rightarrow> unit m" where
  "kill_lsof_pid hdl env pid =
     (if strip pid \<noteq> [] then
        bnd (subprocess_run hdl env [''kill'', ''-9'', strip pid]) (\<lambda>_.
        bnd (set_killed_any True) (\<lambda>_.
        sleep hdl env 100))
      else return ())"

definition lsof_kill :: "unit m \<Rightarrow> env \<Rightarrow> nat \<Rightarrow> unit m" where
  "lsof_kill hdl env port =
     bnd (subprocess_run hdl env [''lsof'', ''-ti'', port_arg port]) (\<lambda>(rc, out).
       if rc = 0 \<and> strip out \<noteq> [] then
         for_each (split_on (CHR 0x0A) (strip out)) (kill_lsof_pid hdl env)
       else return ())"

text \<open>Method 2, the body of \<^verbatim>\<open>for part in parts\<close>; \<^verbatim>\<open>part.split('/')[0]\<close> raises
  \<^verbatim>\<open>IndexError\<close> on an empty list.\<close>

definition kill_netstat_part :: "unit m \<Rightarrow> env \<Rightarrow> string \<Rightarrow> unit m" where
  "kill_netstat_part hdl env part =
     (if contains ''/'' part then
        (case split_on CHR ''/'' part of
           [] \<Rightarrow> raise OtherError
         | pid # _ \<Rightarrow>
             if isdigit pid then
               bnd (subprocess_run hdl env [''kill'', ''-9'', pid]) (\<lambda>_. set_killed_any True)
             else return ())
      else return ())"

definition netstat_line :: "unit m \<Rightarrow> env \<Rightarrow> nat \<Rightarrow> string \<Rightarrow> unit m" where
  "netstat_line hdl env port line =
     (if contains (port_arg port) line \<and> contains ''LISTEN'' line then
        for_each (split_ws line) (kill_netstat_part hdl env)
      else return ())"

definition netstat_kill :: "unit m \<Rightarrow> env \<Rightarrow> nat \<Rightarrow> unit m" where
  "netstat_kill hdl env port =
     try_except
       (bnd (subprocess_run hdl env [''netstat'', ''-tulpn'']) (\<lambda>(rc, out).
          if rc = 0 then for_each (split_on (CHR 0x0A) out) (netstat_line hdl env port)
          else return ()))
       os_or_subprocess
       (return ())"

text \<open>The body of \<^verbatim>\<open>for port in ports\<close>: the outer \<^verbatim>\<open>try\<close> holds Method 1 and then the
  inner \<^verbatim>\<open>try\<close> of Method 2.\<close>

definition cleanup_port :: "unit m \<Rightarrow> env \<Rightarrow> nat \<Rightarrow> unit m" where
  "cleanup_port hdl env port =
     try_except
       (thn (lsof_kill hdl env port) (netstat_kill hdl env port))
       os_or_subprocess
       (return ())"

text \<open>Methods 3 and 4, which differ in the pattern given to \<^verbatim>\<open>pgrep\<close>.\<close>

definition kill_pgrep_pid :: "unit m \<Rightarrow> env \<Rightarrow> string \<Rightarrow> unit m" where
  "kill_pgrep_pid hdl env pid =
     (if strip pid \<noteq> [] then
        bnd (subprocess_run hdl env [''kill'', ''-9'', strip pid]) (\<lambda>_. set_killed_any True)
      else return ())"

definition pgrep_kill :: "unit m \<Rightarrow> env \<Rightarrow> string \<Rightarrow> unit m" where
  "pgrep_kill hdl env pattern =
     try_except
       (bnd (subprocess_run hdl env [''pgrep'', ''-f'', pattern]) (\<lambda>(rc, out).
          if rc = 0 \<and> strip out \<noteq> [] then
            for_each (split_on (CHR 0x0A) (strip out)) (kill_pgrep_pid hdl env)
          else return ()))
       os_or_subprocess
       (return ())"

definition probes :: "unit m \<Rightarrow> env \<Rightarrow> unit m" where
  "probes hdl env =
     thn (for_each ports (cleanup_port hdl env))
    (thn (pgrep_kill hdl env ''rpc_server'')
         (pgrep_kill hdl env ''cargo run.*rpc_server''))"

definition cleanup_ports :: "unit m \<Rightarrow> env \<Rightarrow> unit m" where
  "cleanup_ports hdl env =
     thn (set_killed_any False)
    (thn (probes hdl env)
         (\<lambda>s. if killed_any s then sleep hdl env 2000 s else (Ret (), s)))"

section \<open>Popen objects\<close>

text \<open>\<^verbatim>\<open>subprocess.Popen(argv, stdout=PIPE, stderr=STDOUT)\<close>: the new object gets the next handle,
  and its \<open>returncode\<close> is \<^verbatim>\<open>None\<close>.\<close>

definition popen :: "unit m \<Rightarrow> env \<Rightarrow> string list \<Rightarrow> nat m" where
  "popen hdl env argv = bnd (check hdl env) (\<lambda>_ s.
     case spawn env (tick s) argv of
       Some e \<Rightarrow> (Raise e, s\<lparr>trace := trace s @ [Failed argv e]\<rparr>)
     | None \<Rightarrow> (Ret (nobjs s),
         s\<lparr>returncode := (returncode s)(nobjs s := None), nq := (nq s)(nobjs s := 0),
           nreads := (nreads s)(nobjs s := 0), nobjs := Suc (nobjs s),
           trace := trace s @ [Spawned argv (nobjs s)]\<rparr>))"

text \<open>\<^verbatim>\<open>Popen.poll()\<close>: a return code once seen stays in the object, and the process is not
  asked again.\<close>

definition poll :: "unit m \<Rightarrow> env \<Rightarrow> nat \<Rightarrow> int option m" where
  "poll hdl env h = bnd (check hdl env) (\<lambda>_ s.
     case returncode s h of
       Some rc \<Rightarrow> (Ret (Some rc), s)
     | None \<Rightarrow> (Ret (os_poll env h (nq s h)),
         s\<lparr>returncode := (returncode s)(h := os_poll env h (nq s h)),
           nq := (nq s)(h := Suc (nq s h))\<rparr>))"

text \<open>\<^verbatim>\<open>Popen.wait(timeout=secs)\<close> raises \<^verbatim>\<open>TimeoutExpired\<close> when the process is still
  running after \<open>secs\<close> seconds.\<close>

definition wait :: "unit m \<Rightarrow> env \<Rightarrow> nat \<Rightarrow> nat \<Rightarrow> int m" where
  "wait hdl env h secs = bnd (check hdl env) (\<lambda>_ s.
     case returncode s h of
       Some rc \<Rightarrow> (Ret rc, s)
     | None \<Rightarrow> (case os_wait env h (nq s h) secs of
         Some rc \<Rightarrow> (Ret rc,
           s\<lparr>returncode := (returncode s)(h := Some rc), nq := (nq s)(h := Suc (nq s h))\<rparr>)
       | None \<Rightarrow> (Raise TimeoutExpired,
           s\<lparr>nq := (nq s)(h := Suc (nq s h)), clock := clock s + secs * 1000\<rparr>)))"

text \<open>\<^verbatim>\<open>Popen.wait()\<close> without a timeout does not return while the process runs.\<close>

definition wait_exit :: "unit m \<Rightarrow> env \<Rightarrow> nat \<Rightarrow> int m" where
  "wait_exit hdl env h = bnd (check hdl env) (\<lambda>_ s.
     case returncode s h of
       Some rc \<Rightarrow> (Ret rc, s)
     | None \<Rightarrow> (case os_wait_forever env h (nq s h) of
         Some rc \<Rightarrow> (Ret rc,
           s\<lparr>returncode := (returncode s)(h := Some rc), nq := (nq s)(h := Suc (nq s h))\<rparr>)
       | None \<Rightarrow> (Blocked, s)))"

text \<open>\<^verbatim>\<open>Popen.terminate()\<close> and \<^verbatim>\<open>Popen.kill()\<close> send no signal to a process whose return code
  is known.\<close>

definition terminate :: "unit m \<Rightarrow> env \<Rightarrow> nat \<Rightarrow> unit m" where
  "terminate hdl env h = bnd (check hdl env) (\<lambda>_ s.
     if returncode s h = None then (Ret (), s\<lparr>trace := trace s @ [Terminate h]\<rparr>)
     else (Ret (), s))"

definition kill :: "unit m \<Rightarrow> env \<Rightarrow> nat \<Rightarrow> unit m" where
  "kill hdl env h = bnd (check hdl env) (\<lambda>_ s.
     if returncode s h = None then (Ret (), s\<lparr>trace := trace s @ [Kill h]\<rparr>)
     else (Ret (), s))"

text \<open>\<^verbatim>\<open>process.stdout.readline()\<close> on the pipe: it returns a line, or \<^verbatim>\<open>b''\<close> at the end of
  the stream, after \<open>read_dur\<close> milliseconds; while the process is silent and holds the pipe
  open, it does not return.\<close>

definition readline :: "unit m \<Rightarrow> env \<Rightarrow> nat \<Rightarrow> read_outcome m" where
  "readline hdl env h = bnd (check hdl env) (\<lambda>_ s.
     case os_readline env h (nreads s h) of
       RHang \<Rightarrow> (Blocked, s\<lparr>nreads := (nreads s)(h := Suc (nreads s h))\<rparr>)
     | RRaise e \<Rightarrow> (Raise e, s\<lparr>nreads := (nreads s)(h := Suc (nreads s h)),
           clock := clock s + read_dur env h (nreads s h)\<rparr>)
     | r \<Rightarrow> (Ret r, s\<lparr>nreads := (nreads s)(h := Suc (nreads s h)),
           clock := clock s + read_dur env h (nreads s h)\<rparr>))"

text \<open>\<^verbatim>\<open>for line in client_process.stdout: print(line.rstrip())\<close>, as one action: the stream
  ends, or reading it raises, or the client never closes it.\<close>

definition drain :: "unit m \<Rightarrow> env \<Rightarrow> nat \<Rightarrow> unit m" where
  "drain hdl env h = bnd (check hdl env) (\<lambda>_ s.
     case os_drain env h of
       Drained \<Rightarrow> (Ret (), s)
     | DrainRaise e \<Rightarrow> (Raise e, s)
     | DrainForever \<Rightarrow> (Blocked, s))"

section \<open>cleanup and the signal handler\<close>

text \<open>The body of \<^verbatim>\<open>for process in self.processes\<close>.\<close>

definition reap :: "unit m \<Rightarrow> env \<Rightarrow> nat \<Rightarrow> unit m" where
  "reap hdl env process =
     bnd (poll hdl env process) (\<lambda>rc.
       if rc = None then
         thn (terminate hdl env process)
           (try_except (thn (wait hdl env process 3) (return ()))
              (\<lambda>e. e = TimeoutExpired)
              (thn (kill hdl env process)
                 (try_except (thn (wait hdl env process 2) (return ()))
                    (\<lambda>e. e = TimeoutExpired)
                    (return ()))))
       else return ())"

text \<open>\<^verbatim>\<open>cleanup\<close> between its two messages: the tracked processes, the ports, and
  \<^verbatim>\<open>pkill\<close>.\<close>

definition cleanup_steps :: "unit m \<Rightarrow> env \<Rightarrow> unit m" where
  "cleanup_steps hdl env =
     thn (\<lambda>s. for_each (processes s) (reap hdl env) s)
    (thn (cleanup_ports hdl env)
         (try_except
            (thn (subprocess_run hdl env [''pkill'', ''-f'', ''rpc_server'']) (return ()))
            os_or_subprocess
            (return ())))"

definition cleanup :: "unit m \<Rightarrow> env \<Rightarrow> unit m" where
  "cleanup hdl env =
     thn (emit Cleanup_begin)
    (thn (cleanup_steps hdl env)
         (emit Cleanup_end))"

text \<open>The handler of \<^verbatim>\<open>SIGINT\<close> and \<^verbatim>\<open>SIGTERM\<close>. No second signal arrives while it runs.\<close>

definition signal_handler :: "env \<Rightarrow> unit m" where
  "signal_handler env =
     thn (emit (Signal_received (signum env)))
    (thn (cleanup (return ()) env)
         (raise (SystemExit 0)))"

section \<open>wait_for_server_ready\<close>

text \<open>One round of the \<^verbatim>\<open>while\<close> loop: \<open>Some b\<close> is \<^verbatim>\<open>return b\<close>, \<open>None\<close> is the end of the
  round after \<^verbatim>\<open>time.sleep(0.1)\<close>.\<close>

definition wait_iter :: "unit m \<Rightarrow> env \<Rightarrow> string \<Rightarrow> string \<Rightarrow> nat \<Rightarrow> bool option m" where
  "wait_iter hdl env server_name expected_output process =
     bnd (poll hdl env process) (\<lambda>rc.
       if rc \<noteq> None then thn (emit (Log_terminated server_name)) (return (Some False))
       else
         bnd (try_except
                (bnd (readline hdl env process) (\<lambda>line.
                   case line of
                     RLine l \<Rightarrow>
                       if contains expected_output (strip l)
                       then thn (emit (Log_ready server_name)) (return (Some True))
                       else return None
                   | RUndecodable \<Rightarrow> raise UnicodeDecodeError
                   | _ \<Rightarrow> return None))
                (\<lambda>e. is_OSError e \<or> e = UnicodeDecodeError)
                (return None))
           (\<lambda>r. case r of
                  Some b \<Rightarrow> return (Some b)
                | None \<Rightarrow> thn (sleep hdl env 100) (return None)))"

text \<open>The loop, with \<open>None\<close> for a loop that does not end.\<close>

partial_function (option) wait_loop ::
  "unit m \<Rightarrow> env \<Rightarrow> string \<Rightarrow> string \<Rightarrow> nat \<Rightarrow> int \<Rightarrow> nat \<Rightarrow> st \<Rightarrow> (bool res \<times> st) option" where
  "wait_loop hdl env server_name expected_output process timeout start_time s =
     (if int (clock s) - int start_time < timeout * 1000 then
        (case wait_iter hdl env server_name expected_output process s of
           (Ret (Some b), s') \<Rightarrow> Some (Ret b, s')
         | (Ret None, s') \<Rightarrow>
             wait_loop hdl env server_name expected_output process timeout start_time s'
         | (Raise e, s') \<Rightarrow> Some (Raise e, s')
         | (Blocked, s') \<Rightarrow> Some (Blocked, s'))
      else Some (Ret False, s\<lparr>trace := trace s @ [Log_timeout server_name]\<rparr>))"

declare wait_loop.simps [code]

definition wait_for_server_ready ::
  "unit m \<Rightarrow> env \<Rightarrow> string \<Rightarrow> string \<Rightarrow> nat \<Rightarrow> int \<Rightarrow> bool m" where
  "wait_for_server_ready hdl env server_name expected_output process timeout s =
     (case wait_loop hdl env server_name expected_output process timeout (clock s) s of
        Some r \<Rightarrow> r
      | None \<Rightarrow> (Blocked, s))"

section \<open>Starting the servers and running the client\<close>

definition track_server2 :: "nat \<Rightarrow> unit m" where
  "track_server2 p s =
     (Ret (), s\<lparr>server2_process := Some p, processes := processes s @ [p]\<rparr>)"

definition track_server1 :: "nat \<Rightarrow> unit m" where
  "track_server1 p s =
     (Ret (), s\<lparr>server1_process := Some p, processes := processes s @ [p]\<rparr>)"

definition start_server2 :: "unit m \<Rightarrow> env \<Rightarrow> bool m" where
  "start_server2 hdl env =
     try_except
       (bnd (popen hdl env [''just'', ''server2'']) (\<lambda>p.
          thn (track_server2 p)
              (wait_for_server_ready hdl env ''Server2'' ''Server2 listening on'' p 30)))
       os_or_subprocess
       (return False)"

definition start_server1 :: "unit m \<Rightarrow> env \<Rightarrow> bool m" where
  "start_server1 hdl env =
     try_except
       (bnd (popen hdl env [''just'', ''server1'']) (\<lambda>p.
          thn (track_server1 p)
              (wait_for_server_ready hdl env ''Server1'' ''Server1 listening on'' p 60)))
       os_or_subprocess
       (return False)"

text \<open>The two dependency roles, with the arguments that \<^verbatim>\<open>start_server2\<close> and
  \<^verbatim>\<open>start_server1\<close> pass on.\<close>

datatype role = Server2 | Server1

fun role_cmd :: "role \<Rightarrow> string list" where
  "role_cmd Server2 = [''just'', ''server2'']"
| "role_cmd Server1 = [''just'', ''server1'']"

fun role_name :: "role \<Rightarrow> string" where
  "role_name Server2 = ''Server2''"
| "role_name Server1 = ''Server1''"

fun role_marker :: "role \<Rightarrow> string" where
  "role_marker Server2 = ''Server2 listening on''"
| "role_marker Server1 = ''Server1 listening on''"

fun role_timeout :: "role \<Rightarrow> int" where
  "role_timeout Server2 = 30"
| "role_timeout Server1 = 60"

fun start_server :: "unit m \<Rightarrow> env \<Rightarrow> role \<Rightarrow> bool m" where
  "start_server hdl env Server2 = start_server2 hdl env"
| "start_server hdl env Server1 = start_server1 hdl env"

definition run_client :: "unit m \<Rightarrow> env \<Rightarrow> bool m" where
  "run_client hdl env =
     try_except
       (bnd (popen hdl env
               [''just'', ''client'', ''https://localhost:3002'', ''https://localhost:3004''])
          (\<lambda>client_process.
             thn (drain hdl env client_process)
                 (bnd (wait_exit hdl env client_process) (\<lambda>rc. return (rc = 0)))))
       os_or_subprocess
       (return False)"

section \<open>run and main\<close>

text \<open>The part of \<^verbatim>\<open>run\<close> before its \<^verbatim>\<open>try\<close>: \<open>False\<close> is the early \<^verbatim>\<open>return False\<close>.\<close>

definition preflight :: "unit m \<Rightarrow> env \<Rightarrow> bool m" where
  "preflight hdl env =
     thn (cleanup_ports hdl env)
    (bnd (check_ports_free hdl env) (\<lambda>free.
       if \<not> free then
         thn (subprocess_run hdl env [''pkill'', ''-9'', ''-f'', ''rpc_server''])
        (thn (subprocess_run hdl env [''pkill'', ''-9'', ''-f'', ''cargo.*rpc_server''])
        (thn (sleep hdl env 1000)
        (thn (cleanup_ports hdl env)
             (check_ports_free hdl env))))
       else return True))"

text \<open>The body of the \<^verbatim>\<open>try\<close>.\<close>

definition startup :: "unit m \<Rightarrow> env \<Rightarrow> bool m" where
  "startup hdl env =
     bnd (start_server2 hdl env) (\<lambda>ok2.
       if \<not> ok2 then return False
       else bnd (start_server1 hdl env) (\<lambda>ok1.
         if \<not> ok1 then return False
         else run_client hdl env))"

definition run_caught :: "exn \<Rightarrow> bool" where
  "run_caught e = (e = KeyboardInterrupt \<or> os_or_subprocess e \<or> e = RuntimeError)"

definition run :: "env \<Rightarrow> bool m" where
  "run env =
     bnd (preflight (signal_handler env) env) (\<lambda>free.
       if \<not> free then return False
       else try_finally
              (try_except (startup (signal_handler env) env) run_caught (return False))
              (cleanup (signal_handler env) env))"

text \<open>\<^verbatim>\<open>subprocess.run(argv, check=True)\<close>\<close>

definition subprocess_run_check :: "unit m \<Rightarrow> env \<Rightarrow> string list \<Rightarrow> (int \<times> string) m" where
  "subprocess_run_check hdl env argv =
     bnd (subprocess_run hdl env argv) (\<lambda>(rc, out).
       if rc \<noteq> 0 then raise CalledProcessError else return (rc, out))"

text \<open>\<^verbatim>\<open>main\<close>; the handlers are installed by \<^verbatim>\<open>run\<close>, and a signal before that is not
  modelled.\<close>

definition main :: "env \<Rightarrow> unit m" where
  "main env =
     (if \<not> path_exists env ''justfile'' then raise (SystemExit 1)
      else
        thn (try_except
               (thn (subprocess_run_check (return ()) env [''just'', ''--version'']) (return ()))
               (\<lambda>e. e = CalledProcessError \<or> e = FileNotFoundError)
               (raise (SystemExit 1)))
            (bnd (run env) (\<lambda>success.
               if success then raise (SystemExit 0) else raise (SystemExit 1))))"

text \<open>The exit status of the interpreter: that of \<^verbatim>\<open>SystemExit\<close>, 1 after an uncaught
  exception (130 after \<^verbatim>\<open>KeyboardInterrupt\<close>), and none while the program is blocked.\<close>

fun exit_status :: "unit res \<Rightarrow> int option" where
  "exit_status (Ret _) = Some 0"
| "exit_status (Raise (SystemExit c)) = Some c"
| "exit_status (Raise KeyboardInterrupt) = Some 130"
| "exit_status (Raise _) = Some 1"
| "exit_status Blocked = None"

definition init_st :: st where
  "init_st = \<lparr>processes = [], server2_process = None, server1_process = None,
     returncode = (\<lambda>_. None), nq = (\<lambda>_. 0), nreads = (\<lambda>_. 0), nobjs = 0,
     killed_any = False, tick = 0, clock = 0, trace = []\<rparr>"

definition exit_code :: "env \<Rightarrow> int option" where
  "exit_code env = exit_status (fst (main env init_st))"

section \<open>Runs without a signal\<close>

definition quiet :: "unit m \<Rightarrow> env \<Rightarrow> bool" where
  "quiet hdl env = (\<forall>s. check hdl env s = (Ret (), s\<lparr>tick := Suc (tick s)\<rparr>))"

lemma quiet_no_signal: "signal_at env = None \<Longrightarrow> quiet hdl env"
  by (simp add: quiet_def check_def)

lemma quiet_return: "quiet (return ()) env"
  by (simp add: quiet_def check_def return_def)

section \<open>check_ports_free when lsof cannot answer\<close>

text \<open>\<^verbatim>\<open>lsof\<close> is unavailable or errors for every managed port: each call raises an
  \<^verbatim>\<open>OSError\<close> or a \<^verbatim>\<open>SubprocessError\<close>, or ends with a nonzero return code.\<close>

definition lsof_unavailable :: "env \<Rightarrow> bool" where
  "lsof_unavailable env = (\<forall>n. \<forall>port \<in> set ports.
     (case exec env n [''lsof'', ''-ti'', port_arg port] of
        Inl e \<Rightarrow> os_or_subprocess e
      | Inr (rc, out) \<Rightarrow> rc \<noteq> 0))"

lemma check_port_unavailable:
  assumes "quiet hdl env" and "lsof_unavailable env" and "port \<in> set ports"
  shows "\<exists>s'. check_port hdl env port s = (Ret None, s')"
proof -
  let ?s = "s\<lparr>tick := Suc (tick s)\<rparr>"
  have c: "check hdl env s = (Ret (), ?s)" using assms(1) by (simp add: quiet_def)
  have "case exec env (tick ?s) [''lsof'', ''-ti'', port_arg port] of
        Inl e \<Rightarrow> os_or_subprocess e | Inr (rc, out) \<Rightarrow> rc \<noteq> 0"
    using assms(2,3) unfolding lsof_unavailable_def by blast
  then show ?thesis
    by (auto simp: check_port_def try_except_def bnd_def subprocess_run_def c return_def
        split: sum.splits prod.splits)
qed

text \<open>C10. When \<^verbatim>\<open>lsof\<close> is unavailable or errors for every managed port, \<^verbatim>\<open>check_ports_free\<close>
  returns \<^verbatim>\<open>True\<close>: a port whose owner cannot be discovered counts as free, whatever
  holds the port.\<close>

theorem check_ports_free_unavailable:
  assumes "signal_at env = None" and "lsof_unavailable env"
  shows "\<exists>s'. check_ports_free hdl env s = (Ret True, s')"
proof -
  have q: "quiet hdl env" using assms(1) by (rule quiet_no_signal)
  obtain s1 where s1: "check_port hdl env 3002 s = (Ret None, s1)"
    using check_port_unavailable [OF q assms(2), of 3002 s] by (auto simp: ports_def)
  obtain s2 where s2: "check_port hdl env 3004 s1 = (Ret None, s2)"
    using check_port_unavailable [OF q assms(2), of 3004 s1] by (auto simp: ports_def)
  show ?thesis
    by (simp add: check_ports_free_def ports_def bnd_def s1 s2 return_def)
qed

section \<open>Which exceptions a call can end with\<close>

text \<open>\<open>only P f\<close>: from every state \<open>f\<close> returns, or raises an exception in \<open>P\<close>; it does
  not block.\<close>

definition only :: "(exn \<Rightarrow> bool) \<Rightarrow> 'a m \<Rightarrow> bool" where
  "only P f = (\<forall>s. case fst (f s) of Ret _ \<Rightarrow> True | Raise e \<Rightarrow> P e | Blocked \<Rightarrow> False)"

lemma only_return: "only P (return x)"
  by (simp add: only_def return_def)

lemma only_raise: "P e \<Longrightarrow> only P (raise e)"
  by (simp add: only_def raise_def)

lemma only_bnd:
  assumes "only P f" and "\<And>x. only P (g x)"
  shows "only P (bnd f g)"
  unfolding only_def
proof
  fix s
  obtain r s' where fs: "f s = (r, s')" by (cases "f s")
  have a: "case r of Ret _ \<Rightarrow> True | Raise e \<Rightarrow> P e | Blocked \<Rightarrow> False"
    using assms(1) fs unfolding only_def by (metis fst_conv)
  show "case fst (bnd f g s) of Ret _ \<Rightarrow> True | Raise e \<Rightarrow> P e | Blocked \<Rightarrow> False"
  proof (cases r)
    case (Ret x)
    have "case fst (g x s') of Ret _ \<Rightarrow> True | Raise e \<Rightarrow> P e | Blocked \<Rightarrow> False"
      using assms(2) [of x] unfolding only_def by blast
    then show ?thesis by (simp add: bnd_def fs Ret)
  next
    case (Raise e)
    then show ?thesis using a by (simp add: bnd_def fs)
  next
    case Blocked
    then show ?thesis using a by simp
  qed
qed


lemma only_thn: "only P f \<Longrightarrow> only P g \<Longrightarrow> only P (thn f g)"
  by (simp add: thn_def only_bnd)

lemma only_weaken: "only P f \<Longrightarrow> (\<And>e. P e \<Longrightarrow> Q e) \<Longrightarrow> only Q f"
  unfolding only_def by (auto split: res.splits)

lemma only_try_except:
  assumes "only Q f" and "\<And>e. Q e \<Longrightarrow> \<not> C e \<Longrightarrow> P e" and "only P h"
  shows "only P (try_except f C h)"
  unfolding only_def
proof
  fix s
  obtain r s' where fs: "f s = (r, s')" by (cases "f s")
  have a: "case r of Ret _ \<Rightarrow> True | Raise e \<Rightarrow> Q e | Blocked \<Rightarrow> False"
    using assms(1) fs unfolding only_def by (metis fst_conv)
  have h: "case fst (h s') of Ret _ \<Rightarrow> True | Raise e \<Rightarrow> P e | Blocked \<Rightarrow> False"
    using assms(3) unfolding only_def by blast
  show "case fst (try_except f C h s) of Ret _ \<Rightarrow> True | Raise e \<Rightarrow> P e | Blocked \<Rightarrow> False"
    using a h assms(2) by (cases r) (auto simp: try_except_def fs)
qed

lemma only_for_each: "(\<And>x. only P (g x)) \<Longrightarrow> only P (for_each xs g)"
  by (induction xs) (simp_all add: only_return only_bnd)

lemma only_set_killed_any: "only P (set_killed_any b)"
  by (simp add: only_def set_killed_any_def)

text \<open>Every exception that \<^verbatim>\<open>subprocess.run\<close> raises is in \<open>Q\<close>.\<close>

definition exec_raises :: "env \<Rightarrow> (exn \<Rightarrow> bool) \<Rightarrow> bool" where
  "exec_raises env Q = (\<forall>n argv. case exec env n argv of Inl e \<Rightarrow> Q e | Inr _ \<Rightarrow> True)"

lemma only_subprocess_run:
  assumes "quiet hdl env" and "exec_raises env Q"
  shows "only Q (subprocess_run hdl env argv)"
  unfolding only_def
proof
  fix s :: st
  have "case exec env (Suc (tick s)) argv of Inl e \<Rightarrow> Q e | Inr _ \<Rightarrow> True"
    using assms(2) unfolding exec_raises_def by blast
  then show "case fst (subprocess_run hdl env argv s) of
      Ret _ \<Rightarrow> True | Raise e \<Rightarrow> Q e | Blocked \<Rightarrow> False"
    using assms(1) by (auto simp: subprocess_run_def bnd_def quiet_def split: sum.splits)
qed

lemma only_sleep: "quiet hdl env \<Longrightarrow> only P (sleep hdl env ms)"
  by (simp add: only_def sleep_def bnd_def quiet_def)

lemma split_when_nonempty: "split_when P s \<noteq> []"
  by (induction s) (auto split: list.splits)

lemma only_kill_lsof_pid:
  "quiet hdl env \<Longrightarrow> exec_raises env Q \<Longrightarrow> only Q (kill_lsof_pid hdl env pid)"
  by (simp add: kill_lsof_pid_def only_bnd only_subprocess_run only_set_killed_any only_sleep
      only_return)

lemma only_kill_pgrep_pid:
  "quiet hdl env \<Longrightarrow> exec_raises env Q \<Longrightarrow> only Q (kill_pgrep_pid hdl env pid)"
  by (simp add: kill_pgrep_pid_def only_bnd only_subprocess_run only_set_killed_any only_return)

lemma only_kill_netstat_part:
  "quiet hdl env \<Longrightarrow> exec_raises env Q \<Longrightarrow> only Q (kill_netstat_part hdl env part)"
  using split_when_nonempty [of "\<lambda>c. c = CHR ''/''" part]
  by (auto simp: kill_netstat_part_def split_on_def only_bnd only_subprocess_run
      only_set_killed_any only_return split: list.splits)

lemma only_lsof_kill:
  assumes "quiet hdl env" and "exec_raises env Q"
  shows "only Q (lsof_kill hdl env port)"
  unfolding lsof_kill_def
  by (rule only_bnd [OF only_subprocess_run [OF assms]])
     (auto simp: only_return only_for_each only_kill_lsof_pid [OF assms])

lemma only_netstat_kill:
  assumes "quiet hdl env" and "exec_raises env os_or_subprocess"
  shows "only P (netstat_kill hdl env port)"
  unfolding netstat_kill_def
proof (rule only_try_except [where Q = os_or_subprocess])
  show "only os_or_subprocess (bnd (subprocess_run hdl env [''netstat'', ''-tulpn''])
     (\<lambda>(rc, out). if rc = 0 then for_each (split_on (CHR 0x0A) out) (netstat_line hdl env port)
        else return ()))"
    by (rule only_bnd [OF only_subprocess_run [OF assms]])
       (auto simp: only_return netstat_line_def
          intro!: only_for_each only_kill_netstat_part [OF assms])
qed (simp_all add: only_return)

lemma only_cleanup_port:
  assumes "quiet hdl env" and "exec_raises env os_or_subprocess"
  shows "only P (cleanup_port hdl env port)"
  unfolding cleanup_port_def
  by (rule only_try_except [where Q = os_or_subprocess])
     (simp_all add: only_thn only_lsof_kill [OF assms] only_netstat_kill [OF assms] only_return)

lemma only_pgrep_kill:
  assumes "quiet hdl env" and "exec_raises env os_or_subprocess"
  shows "only P (pgrep_kill hdl env pattern)"
  unfolding pgrep_kill_def
proof (rule only_try_except [where Q = os_or_subprocess])
  show "only os_or_subprocess (bnd (subprocess_run hdl env [''pgrep'', ''-f'', pattern])
     (\<lambda>(rc, out). if rc = 0 \<and> strip out \<noteq> [] then
         for_each (split_on (CHR 0x0A) (strip out)) (kill_pgrep_pid hdl env)
        else return ()))"
    by (rule only_bnd [OF only_subprocess_run [OF assms]])
       (auto simp: only_return intro!: only_for_each only_kill_pgrep_pid [OF assms])
qed (simp_all add: only_return)

lemma only_probes:
  assumes "quiet hdl env" and "exec_raises env os_or_subprocess"
  shows "only P (probes hdl env)"
  unfolding probes_def
  by (intro only_thn only_for_each only_cleanup_port [OF assms] only_pgrep_kill [OF assms])

lemma only_cleanup_ports:
  assumes "quiet hdl env" and "exec_raises env os_or_subprocess"
  shows "only P (cleanup_ports hdl env)"
proof -
  have "only P (\<lambda>s. if killed_any s then sleep hdl env 2000 s else (Ret (), s))"
    using only_sleep [OF assms(1), of P 2000] by (simp add: only_def)
  then show ?thesis
    unfolding cleanup_ports_def
    by (intro only_thn only_set_killed_any only_probes [OF assms])
qed

section \<open>Relations between the state before and after a call\<close>

definition preserves :: "(st \<Rightarrow> st \<Rightarrow> bool) \<Rightarrow> 'a m \<Rightarrow> bool" where
  "preserves R f = (\<forall>s. R s (snd (f s)))"

lemma preserves_return: "(\<And>s. R s s) \<Longrightarrow> preserves R (return x)"
  by (simp add: preserves_def return_def)

lemma preserves_raise: "(\<And>s. R s s) \<Longrightarrow> preserves R (raise e)"
  by (simp add: preserves_def raise_def)

lemma preserves_bnd:
  assumes "\<And>a b c. R a b \<Longrightarrow> R b c \<Longrightarrow> R a c"
    and "preserves R f" and "\<And>x. preserves R (g x)"
  shows "preserves R (bnd f g)"
  unfolding preserves_def
proof
  fix s
  obtain r s' where fs: "f s = (r, s')" by (cases "f s")
  have a: "R s s'" using assms(2) fs unfolding preserves_def by (metis snd_conv)
  show "R s (snd (bnd f g s))"
  proof (cases r)
    case (Ret x)
    have "R s' (snd (g x s'))" using assms(3) [of x] unfolding preserves_def by blast
    then show ?thesis using a assms(1) by (simp add: bnd_def fs Ret)
  qed (simp_all add: bnd_def fs a)
qed

lemma preserves_thn:
  assumes "\<And>a b c. R a b \<Longrightarrow> R b c \<Longrightarrow> R a c" and "preserves R f" and "preserves R g"
  shows "preserves R (thn f g)"
  unfolding thn_def using assms by (intro preserves_bnd) auto

lemma preserves_try_except:
  assumes "\<And>a b c. R a b \<Longrightarrow> R b c \<Longrightarrow> R a c" and "preserves R f" and "preserves R h"
  shows "preserves R (try_except f C h)"
  unfolding preserves_def
proof
  fix s
  obtain r s' where fs: "f s = (r, s')" by (cases "f s")
  have a: "R s s'" using assms(2) fs unfolding preserves_def by (metis snd_conv)
  have h: "R s' (snd (h s'))" using assms(3) unfolding preserves_def by blast
  show "R s (snd (try_except f C h s))"
    using a h assms(1) by (cases r) (auto simp: try_except_def fs)
qed

lemma preserves_try_finally:
  assumes "\<And>a b c. R a b \<Longrightarrow> R b c \<Longrightarrow> R a c" and "preserves R f" and "preserves R g"
  shows "preserves R (try_finally f g)"
  unfolding preserves_def
proof
  fix s
  obtain r s' where fs: "f s = (r, s')" by (cases "f s")
  have a: "R s s'" using assms(2) fs unfolding preserves_def by (metis snd_conv)
  obtain r' s'' where gs: "g s' = (r', s'')" by (cases "g s'")
  have h: "R s' s''" using assms(3) gs unfolding preserves_def by (metis snd_conv)
  have "R s s''" using a h assms(1) by blast
  then show "R s (snd (try_finally f g s))"
    using a by (cases r; cases r') (simp_all add: try_finally_def fs gs)
qed

lemma preserves_for_each:
  assumes "\<And>a b c. R a b \<Longrightarrow> R b c \<Longrightarrow> R a c" and "\<And>s. R s s"
    and "\<And>x. preserves R (g x)"
  shows "preserves R (for_each xs g)"
proof (induction xs)
  case Nil
  show ?case using assms(2) by (simp add: preserves_return)
next
  case (Cons x xs)
  show ?case using assms(1,3) Cons by (simp add: preserves_bnd)
qed

section \<open>What cleanup_ports does with killed_any\<close>

fun is_kill :: "event \<Rightarrow> bool" where
  "is_kill (Ran argv rc) = (case argv of [] \<Rightarrow> False | c # _ \<Rightarrow> c = ''kill'')"
| "is_kill _ = False"

definition any_kill :: "event list \<Rightarrow> bool" where
  "any_kill evs = list_ex is_kill evs"

definition kill_rel :: "st \<Rightarrow> st \<Rightarrow> bool" where
  "kill_rel s s' = (\<exists>evs. trace s' = trace s @ evs \<and> Sleep 2000 \<notin> set evs
      \<and> (killed_any s' \<longleftrightarrow> killed_any s \<or> any_kill evs))"

lemma kill_rel_refl: "kill_rel s s"
  by (simp add: kill_rel_def any_kill_def)

lemma kill_rel_trans: "kill_rel a b \<Longrightarrow> kill_rel b c \<Longrightarrow> kill_rel a c"
  unfolding kill_rel_def any_kill_def
  apply (elim exE conjE)
  subgoal for evs evs'
    by (rule exI [of _ "evs @ evs'"]) auto
  done

lemma kill_rel_lsof:
  "quiet hdl env \<Longrightarrow> preserves kill_rel (subprocess_run hdl env [''lsof'', a, b])"
  by (auto simp: preserves_def subprocess_run_def bnd_def quiet_def kill_rel_def any_kill_def
      split: sum.splits)

lemma kill_rel_netstat:
  "quiet hdl env \<Longrightarrow> preserves kill_rel (subprocess_run hdl env [''netstat'', a])"
  by (auto simp: preserves_def subprocess_run_def bnd_def quiet_def kill_rel_def any_kill_def
      split: sum.splits)

lemma kill_rel_pgrep:
  "quiet hdl env \<Longrightarrow> preserves kill_rel (subprocess_run hdl env [''pgrep'', a, b])"
  by (auto simp: preserves_def subprocess_run_def bnd_def quiet_def kill_rel_def any_kill_def
      split: sum.splits)

lemma kill_rel_kill_lsof_pid:
  "quiet hdl env \<Longrightarrow> preserves kill_rel (kill_lsof_pid hdl env pid)"
  by (auto simp: preserves_def kill_lsof_pid_def subprocess_run_def bnd_def quiet_def
      kill_rel_def any_kill_def set_killed_any_def sleep_def return_def split: sum.splits)

lemma kill_rel_kill_pgrep_pid:
  "quiet hdl env \<Longrightarrow> preserves kill_rel (kill_pgrep_pid hdl env pid)"
  by (auto simp: preserves_def kill_pgrep_pid_def subprocess_run_def bnd_def quiet_def
      kill_rel_def any_kill_def set_killed_any_def return_def split: sum.splits)

lemma kill_rel_kill_netstat_part:
  "quiet hdl env \<Longrightarrow> preserves kill_rel (kill_netstat_part hdl env part)"
  by (auto simp: preserves_def kill_netstat_part_def subprocess_run_def bnd_def quiet_def
      kill_rel_def any_kill_def set_killed_any_def return_def raise_def
      split: sum.splits list.splits)


lemma kill_rel_bnd:
  "preserves kill_rel f \<Longrightarrow> (\<And>x. preserves kill_rel (g x)) \<Longrightarrow> preserves kill_rel (bnd f g)"
  by (rule preserves_bnd [where R = kill_rel]) (auto intro: kill_rel_trans)

lemma kill_rel_thn:
  "preserves kill_rel f \<Longrightarrow> preserves kill_rel g \<Longrightarrow> preserves kill_rel (thn f g)"
  by (rule preserves_thn [where R = kill_rel]) (auto intro: kill_rel_trans)

lemma kill_rel_try_except:
  "preserves kill_rel f \<Longrightarrow> preserves kill_rel h \<Longrightarrow> preserves kill_rel (try_except f C h)"
  by (rule preserves_try_except [where R = kill_rel]) (auto intro: kill_rel_trans)

lemma kill_rel_for_each:
  "(\<And>x. preserves kill_rel (g x)) \<Longrightarrow> preserves kill_rel (for_each xs g)"
  by (rule preserves_for_each [where R = kill_rel]) (auto intro: kill_rel_trans kill_rel_refl)

lemma kill_rel_return: "preserves kill_rel (return x)"
  by (rule preserves_return) (rule kill_rel_refl)

lemma kill_rel_lsof_kill:
  assumes "quiet hdl env"
  shows "preserves kill_rel (lsof_kill hdl env port)"
  unfolding lsof_kill_def
  by (rule kill_rel_bnd [OF kill_rel_lsof [OF assms]])
     (auto simp: kill_rel_return intro!: kill_rel_for_each kill_rel_kill_lsof_pid [OF assms])

lemma kill_rel_netstat_kill:
  assumes "quiet hdl env"
  shows "preserves kill_rel (netstat_kill hdl env port)"
  unfolding netstat_kill_def
  by (rule kill_rel_try_except [OF kill_rel_bnd [OF kill_rel_netstat [OF assms]]])
     (auto simp: kill_rel_return netstat_line_def
        intro!: kill_rel_for_each kill_rel_kill_netstat_part [OF assms])

lemma kill_rel_cleanup_port:
  assumes "quiet hdl env"
  shows "preserves kill_rel (cleanup_port hdl env port)"
  unfolding cleanup_port_def
  by (intro kill_rel_try_except kill_rel_thn kill_rel_lsof_kill [OF assms]
      kill_rel_netstat_kill [OF assms] kill_rel_return)

lemma kill_rel_pgrep_kill:
  assumes "quiet hdl env"
  shows "preserves kill_rel (pgrep_kill hdl env pattern)"
  unfolding pgrep_kill_def
  by (rule kill_rel_try_except [OF kill_rel_bnd [OF kill_rel_pgrep [OF assms]]])
     (auto simp: kill_rel_return intro!: kill_rel_for_each kill_rel_kill_pgrep_pid [OF assms])

lemma kill_rel_probes:
  assumes "quiet hdl env"
  shows "preserves kill_rel (probes hdl env)"
  unfolding probes_def
  by (intro kill_rel_thn kill_rel_for_each kill_rel_cleanup_port [OF assms]
      kill_rel_pgrep_kill [OF assms])

lemma only_RetD:
  assumes "only (\<lambda>_. False) f"
  shows "\<exists>x s'. f s = (Ret x, s')"
proof -
  obtain r s' where fs: "f s = (r, s')" by (cases "f s")
  have "case r of Ret _ \<Rightarrow> True | Raise e \<Rightarrow> False | Blocked \<Rightarrow> False"
    using assms fs unfolding only_def by (metis fst_conv)
  then show ?thesis using fs by (cases r) auto
qed

text \<open>C4, amended. \<^verbatim>\<open>cleanup_ports\<close> returns nothing. It keeps \<open>killed_any\<close>, the logical
  or of whether a \<^verbatim>\<open>kill\<close> command completed in any of its steps, to itself: when no
  signal arrives and \<^verbatim>\<open>subprocess.run\<close> raises nothing but \<^verbatim>\<open>OSError\<close> and
  \<^verbatim>\<open>SubprocessError\<close>, the call returns, and its last action is the wait of two seconds
  exactly when a kill completed in the steps before.\<close>

theorem cleanup_ports_waits_iff_killed:
  assumes "signal_at env = None" and "exec_raises env os_or_subprocess"
  shows "\<exists>s' evs. cleanup_ports hdl env s = (Ret (), s') \<and> Sleep 2000 \<notin> set evs
     \<and> trace s' = trace s @ evs @ (if any_kill evs then [Sleep 2000] else [])"
proof -
  have q: "quiet hdl env" using assms(1) by (rule quiet_no_signal)
  let ?s0 = "s\<lparr>killed_any := False\<rparr>"
  obtain s1 where p: "probes hdl env ?s0 = (Ret (), s1)"
    using only_RetD [OF only_probes [OF q assms(2)], of ?s0] by auto
  have "kill_rel ?s0 s1"
    using kill_rel_probes [OF q] p unfolding preserves_def by (metis snd_conv)
  then obtain evs where evs: "trace s1 = trace s @ evs" "Sleep 2000 \<notin> set evs"
      "killed_any s1 \<longleftrightarrow> any_kill evs"
    unfolding kill_rel_def by auto
  have c: "check hdl env s1 = (Ret (), s1\<lparr>tick := Suc (tick s1)\<rparr>)"
    using q by (simp add: quiet_def)
  show ?thesis
  proof (cases "any_kill evs")
    case True
    then show ?thesis using evs
      by (intro exI [of _ "s1\<lparr>tick := Suc (tick s1), clock := clock s1 + 2000,
            trace := trace s1 @ [Sleep 2000]\<rparr>"] exI [of _ evs])
         (simp add: cleanup_ports_def thn_def bnd_def set_killed_any_def p sleep_def c)
  next
    case False
    then show ?thesis using evs
      by (intro exI [of _ s1] exI [of _ evs])
         (simp add: cleanup_ports_def thn_def bnd_def set_killed_any_def p)
  qed
qed

section \<open>Concrete runs\<close>

text \<open>The task runner is installed, every discovery tool runs and finds nothing, and every
  launched process lives, prints nothing and closes its output, until it is told to stop.\<close>

definition env_idle :: env where
  "env_idle = \<lparr>path_exists = (\<lambda>_. True),
     exec = (\<lambda>_ argv. if argv = [''just'', ''--version''] then Inr (0, []) else Inr (1, [])),
     spawn = (\<lambda>_ _. None), os_poll = (\<lambda>_ _. None), os_wait = (\<lambda>_ _ _. Some 0),
     os_wait_forever = (\<lambda>_ _. Some 0), os_readline = (\<lambda>_ _. REof), read_dur = (\<lambda>_ _. 0),
     os_drain = (\<lambda>_. Drained), signal_at = None, signum = 2\<rparr>"

text \<open>\<^verbatim>\<open>pgrep -f rpc_server\<close> finds the process 4242, and \<^verbatim>\<open>kill\<close> succeeds.\<close>

definition env_pgrep :: env where
  "env_pgrep = env_idle\<lparr>exec := (\<lambda>_ argv.
     if argv = [''pgrep'', ''-f'', ''rpc_server''] then Inr (0, ''4242'' @ [CHR 0x0A])
     else if take 1 argv = [''kill''] then Inr (0, [])
     else Inr (1, []))\<rparr>"

text \<open>\<^verbatim>\<open>lsof\<close> is not installed; \<^verbatim>\<open>netstat\<close> would show the process 4242 listening on
  port 3002.\<close>

definition env_no_lsof :: env where
  "env_no_lsof = env_idle\<lparr>exec := (\<lambda>_ argv.
     if take 1 argv = [''lsof''] then Inl FileNotFoundError
     else if argv = [''netstat'', ''-tulpn''] then
       Inr (0, ''tcp 0 0 0.0.0.0:3002 0.0.0.0:* LISTEN 4242/rpc_server'')
     else if take 1 argv = [''kill''] then Inr (0, [])
     else Inr (1, []))\<rparr>"


lemmas run_defs = cleanup_ports_def probes_def pgrep_kill_def kill_pgrep_pid_def cleanup_port_def
  netstat_kill_def netstat_line_def kill_netstat_part_def lsof_kill_def kill_lsof_pid_def
  set_killed_any_def subprocess_run_def sleep_def check_def
  bnd_def thn_def try_except_def return_def raise_def ports_def port_arg_def
  strip_def split_on_def split_ws_def isspace_def isdigit_def os_or_subprocess_def

lemma cleanup_ports_env_pgrep:
  "cleanup_ports (return ()) env_pgrep init_st =
     (Ret (), init_st\<lparr>killed_any := True, tick := 8, clock := 2000,
        trace := [Ran [''lsof'', ''-ti'', '':3002''] 1, Ran [''netstat'', ''-tulpn''] 1,
          Ran [''lsof'', ''-ti'', '':3004''] 1, Ran [''netstat'', ''-tulpn''] 1,
          Ran [''pgrep'', ''-f'', ''rpc_server''] 0, Ran [''kill'', ''-9'', ''4242''] 0,
          Ran [''pgrep'', ''-f'', ''cargo run.*rpc_server''] 1, Sleep 2000]\<rparr>)"
  by (simp add: run_defs env_pgrep_def env_idle_def init_st_def)

lemma cleanup_ports_env_idle:
  "cleanup_ports (return ()) env_idle init_st =
     (Ret (), init_st\<lparr>killed_any := False, tick := 6,
        trace := [Ran [''lsof'', ''-ti'', '':3002''] 1, Ran [''netstat'', ''-tulpn''] 1,
          Ran [''lsof'', ''-ti'', '':3004''] 1, Ran [''netstat'', ''-tulpn''] 1,
          Ran [''pgrep'', ''-f'', ''rpc_server''] 1,
          Ran [''pgrep'', ''-f'', ''cargo run.*rpc_server''] 1]\<rparr>)"
  by (simp add: run_defs env_idle_def init_st_def)

text \<open>C4, as stated, fails: \<^verbatim>\<open>cleanup_ports\<close> has no \<^verbatim>\<open>return\<close> statement. A call in which a
  process is killed and a call in which none is both return \<^verbatim>\<open>None\<close>, so that the caller
  learns nothing of \<open>killed_any\<close>.\<close>

theorem cleanup_ports_returns_no_report:
  "fst (cleanup_ports (return ()) env_pgrep init_st) = Ret ()
   \<and> fst (cleanup_ports (return ()) env_idle init_st) = Ret ()
   \<and> any_kill (trace (snd (cleanup_ports (return ()) env_pgrep init_st)))
   \<and> \<not> any_kill (trace (snd (cleanup_ports (return ()) env_idle init_st)))"
  by (simp add: cleanup_ports_env_pgrep cleanup_ports_env_idle any_kill_def)

lemma exec_raises_env_pgrep: "exec_raises env_pgrep os_or_subprocess"
  by (simp add: exec_raises_def env_pgrep_def env_idle_def)

theorem cleanup_ports_waits_iff_killed_witness:
  "signal_at env_pgrep = None \<and> exec_raises env_pgrep os_or_subprocess
   \<and> (\<exists>s' evs. cleanup_ports (return ()) env_pgrep init_st = (Ret (), s')
        \<and> Sleep 2000 \<notin> set evs
        \<and> trace s' = trace init_st @ evs @ (if any_kill evs then [Sleep 2000] else []))"
proof -
  have a: "signal_at env_pgrep = None" by (simp add: env_pgrep_def env_idle_def)
  show ?thesis
    using a exec_raises_env_pgrep
      cleanup_ports_waits_iff_killed [OF a exec_raises_env_pgrep, of "return ()" init_st]
    by simp
qed

text \<open>C8 at a failing input: \<^verbatim>\<open>lsof\<close> is missing, so each call of it raises
  \<^verbatim>\<open>FileNotFoundError\<close>, which the outer \<^verbatim>\<open>except\<close> of the port loop catches; the \<^verbatim>\<open>netstat\<close>
  probe, inside the same \<^verbatim>\<open>try\<close>, is never run, and the listener 4242 it would have
  found is not killed. No error leaves the call.\<close>

theorem cleanup_ports_lsof_missing_skips_netstat:
  "cleanup_ports (return ()) env_no_lsof init_st =
     (Ret (), init_st\<lparr>killed_any := False, tick := 4,
        trace := [Failed [''lsof'', ''-ti'', '':3002''] FileNotFoundError,
          Failed [''lsof'', ''-ti'', '':3004''] FileNotFoundError,
          Ran [''pgrep'', ''-f'', ''rpc_server''] 1,
          Ran [''pgrep'', ''-f'', ''cargo run.*rpc_server''] 1]\<rparr>)"
  by (simp add: run_defs env_no_lsof_def env_idle_def init_st_def)


theorem check_ports_free_unavailable_witness:
  "signal_at env_no_lsof = None \<and> lsof_unavailable env_no_lsof
   \<and> (\<exists>s'. check_ports_free (return ()) env_no_lsof init_st = (Ret True, s'))"
proof -
  have a: "signal_at env_no_lsof = None" by (simp add: env_no_lsof_def env_idle_def)
  have b: "lsof_unavailable env_no_lsof"
    by (simp add: lsof_unavailable_def env_no_lsof_def env_idle_def os_or_subprocess_def)
  show ?thesis
    using a b check_ports_free_unavailable [OF a b, of "return ()" init_st] by simp
qed

section \<open>Steps that only use tools\<close>

fun is_tool :: "event \<Rightarrow> bool" where
  "is_tool (Ran argv rc) = True"
| "is_tool (Failed argv e) = True"
| "is_tool (Sleep ms) = True"
| "is_tool _ = False"

text \<open>From \<open>s\<close> to \<open>s'\<close> nothing happened but runs of external commands and sleeps: the runner
  and the \<^verbatim>\<open>Popen\<close> objects are as they were.\<close>

definition tool_step :: "st \<Rightarrow> st \<Rightarrow> bool" where
  "tool_step s s' = (processes s' = processes s \<and> server2_process s' = server2_process s
     \<and> server1_process s' = server1_process s \<and> returncode s' = returncode s
     \<and> nq s' = nq s \<and> nreads s' = nreads s \<and> nobjs s' = nobjs s
     \<and> (\<exists>evs. trace s' = trace s @ evs \<and> list_all is_tool evs))"

lemma tool_step_refl: "tool_step s s"
  by (simp add: tool_step_def)

lemma tool_step_trans: "tool_step a b \<Longrightarrow> tool_step b c \<Longrightarrow> tool_step a c"
  unfolding tool_step_def
  apply (elim exE conjE)
  subgoal for evs evs'
    by (simp; rule exI [of _ "evs @ evs'"]; simp)
  done

text \<open>\<open>R\<close> is a preorder that holds across tool steps and across the delivery of a signal.\<close>

definition admits :: "(st \<Rightarrow> st \<Rightarrow> bool) \<Rightarrow> unit m \<Rightarrow> env \<Rightarrow> bool" where
  "admits R hdl env = ((\<forall>s. R s s) \<and> (\<forall>a b c. R a b \<longrightarrow> R b c \<longrightarrow> R a c)
     \<and> (\<forall>s s'. tool_step s s' \<longrightarrow> R s s') \<and> preserves R (check hdl env))"

lemma admits_refl: "admits R hdl env \<Longrightarrow> R s s"
  by (simp add: admits_def)

lemma admits_trans: "admits R hdl env \<Longrightarrow> R a b \<Longrightarrow> R b c \<Longrightarrow> R a c"
  unfolding admits_def by blast

lemma admits_bnd:
  "admits R hdl env \<Longrightarrow> preserves R f \<Longrightarrow> (\<And>x. preserves R (g x)) \<Longrightarrow> preserves R (bnd f g)"
  by (rule preserves_bnd [where R = R]) (auto intro: admits_trans)

lemma admits_thn:
  "admits R hdl env \<Longrightarrow> preserves R f \<Longrightarrow> preserves R g \<Longrightarrow> preserves R (thn f g)"
  by (rule preserves_thn [where R = R]) (auto intro: admits_trans)

lemma admits_try_except:
  "admits R hdl env \<Longrightarrow> preserves R f \<Longrightarrow> preserves R h \<Longrightarrow> preserves R (try_except f C h)"
  by (rule preserves_try_except [where R = R]) (auto intro: admits_trans)

lemma admits_try_finally:
  "admits R hdl env \<Longrightarrow> preserves R f \<Longrightarrow> preserves R g \<Longrightarrow> preserves R (try_finally f g)"
  by (rule preserves_try_finally [where R = R]) (auto intro: admits_trans)

lemma admits_for_each:
  "admits R hdl env \<Longrightarrow> (\<And>x. preserves R (g x)) \<Longrightarrow> preserves R (for_each xs g)"
  by (rule preserves_for_each [where R = R]) (auto intro: admits_trans admits_refl)

lemma admits_return: "admits R hdl env \<Longrightarrow> preserves R (return x)"
  by (rule preserves_return) (rule admits_refl)

lemma admits_raise: "admits R hdl env \<Longrightarrow> preserves R (raise e)"
  by (rule preserves_raise) (rule admits_refl)

text \<open>A primitive action: the check for the signal, then one step \<open>body\<close>.\<close>

lemma admits_prim:
  assumes "admits R hdl env" and "\<And>s. R s (snd (body s))"
  shows "preserves R (bnd (check hdl env) (\<lambda>_. body))"
  by (rule admits_bnd [OF assms(1)]) (use assms in \<open>auto simp: admits_def preserves_def\<close>)

lemma admits_tool:
  assumes "admits R hdl env" and "\<And>s. tool_step s (snd (body s))"
  shows "preserves R (bnd (check hdl env) (\<lambda>_. body))"
  by (rule admits_prim [OF assms(1)]) (use assms in \<open>auto simp: admits_def\<close>)

lemma admits_subprocess_run:
  "admits R hdl env \<Longrightarrow> preserves R (subprocess_run hdl env argv)"
  unfolding subprocess_run_def
  by (rule admits_tool) (auto simp: tool_step_def split: sum.splits)

lemma admits_sleep: "admits R hdl env \<Longrightarrow> preserves R (sleep hdl env ms)"
  unfolding sleep_def
  by (rule admits_tool) (auto simp: tool_step_def)

lemma admits_set_killed_any: "admits R hdl env \<Longrightarrow> preserves R (set_killed_any b)"
  by (auto simp: preserves_def admits_def set_killed_any_def tool_step_def)

lemma admits_kill_lsof_pid: "admits R hdl env \<Longrightarrow> preserves R (kill_lsof_pid hdl env pid)"
  unfolding kill_lsof_pid_def
  by (auto intro!: admits_bnd admits_subprocess_run admits_set_killed_any admits_sleep
      admits_return)

lemma admits_kill_pgrep_pid: "admits R hdl env \<Longrightarrow> preserves R (kill_pgrep_pid hdl env pid)"
  unfolding kill_pgrep_pid_def
  by (auto intro!: admits_bnd admits_subprocess_run admits_set_killed_any admits_return)

lemma admits_kill_netstat_part:
  "admits R hdl env \<Longrightarrow> preserves R (kill_netstat_part hdl env part)"
  unfolding kill_netstat_part_def
  by (auto intro!: admits_bnd admits_subprocess_run admits_set_killed_any admits_return
      admits_raise split: list.splits)

lemma admits_lsof_kill: "admits R hdl env \<Longrightarrow> preserves R (lsof_kill hdl env port)"
  unfolding lsof_kill_def
  by (auto intro!: admits_bnd admits_subprocess_run admits_for_each admits_kill_lsof_pid
      admits_return)

lemma admits_netstat_kill: "admits R hdl env \<Longrightarrow> preserves R (netstat_kill hdl env port)"
  unfolding netstat_kill_def netstat_line_def
  by (auto intro!: admits_try_except admits_bnd admits_subprocess_run admits_for_each
      admits_kill_netstat_part admits_return)

lemma admits_cleanup_port: "admits R hdl env \<Longrightarrow> preserves R (cleanup_port hdl env port)"
  unfolding cleanup_port_def
  by (auto intro!: admits_try_except admits_thn admits_lsof_kill admits_netstat_kill
      admits_return)

lemma admits_pgrep_kill: "admits R hdl env \<Longrightarrow> preserves R (pgrep_kill hdl env pattern)"
  unfolding pgrep_kill_def
  by (auto intro!: admits_try_except admits_bnd admits_subprocess_run admits_for_each
      admits_kill_pgrep_pid admits_return)

lemma admits_probes: "admits R hdl env \<Longrightarrow> preserves R (probes hdl env)"
  unfolding probes_def
  by (auto intro!: admits_thn admits_for_each admits_cleanup_port admits_pgrep_kill)

lemma admits_cleanup_ports:
  assumes "admits R hdl env"
  shows "preserves R (cleanup_ports hdl env)"
proof -
  have "preserves R (\<lambda>s. if killed_any s then sleep hdl env 2000 s else (Ret (), s))"
    using admits_sleep [OF assms, of 2000] admits_refl [OF assms]
    by (simp add: preserves_def)
  then show ?thesis
    unfolding cleanup_ports_def
    by (auto intro!: admits_thn [OF assms] admits_set_killed_any admits_probes assms)
qed

lemma admits_check_port: "admits R hdl env \<Longrightarrow> preserves R (check_port hdl env port)"
  unfolding check_port_def
  by (auto intro!: admits_try_except admits_bnd admits_subprocess_run admits_return)

lemma admits_check_ports_free: "admits R hdl env \<Longrightarrow> preserves R (check_ports_free hdl env)"
  unfolding check_ports_free_def ports_def
  by (auto intro!: admits_bnd admits_check_port admits_return split: option.splits)

lemma admits_preflight: "admits R hdl env \<Longrightarrow> preserves R (preflight hdl env)"
  unfolding preflight_def
  by (auto intro!: admits_thn admits_bnd admits_cleanup_ports admits_check_ports_free
      admits_subprocess_run admits_sleep admits_return)

lemma admits_pkill:
  "admits R hdl env \<Longrightarrow> preserves R (try_except
     (thn (subprocess_run hdl env [''pkill'', ''-f'', ''rpc_server'']) (return ()))
     os_or_subprocess (return ()))"
  by (auto intro!: admits_try_except admits_thn admits_subprocess_run admits_return)

section \<open>Steps outside cleanup and the signal handler\<close>

fun is_plain :: "event \<Rightarrow> bool" where
  "is_plain Cleanup_begin = False"
| "is_plain (Signal_received n) = False"
| "is_plain _ = True"

definition plain_step :: "st \<Rightarrow> st \<Rightarrow> bool" where
  "plain_step s s' = (\<exists>evs. trace s' = trace s @ evs \<and> list_all is_plain evs)"

lemma plain_step_refl: "plain_step s s"
  by (simp add: plain_step_def)

lemma plain_step_trans: "plain_step a b \<Longrightarrow> plain_step b c \<Longrightarrow> plain_step a c"
  unfolding plain_step_def
  apply (elim exE conjE)
  subgoal for evs evs'
    by (rule exI [of _ "evs @ evs'"]) simp
  done

lemma is_tool_plain: "is_tool e \<Longrightarrow> is_plain e"
  by (cases e) simp_all

lemma tool_step_plain: "tool_step s s' \<Longrightarrow> plain_step s s'"
  unfolding tool_step_def plain_step_def
  by (auto simp: list_all_iff is_tool_plain)

definition admits_all :: "(st \<Rightarrow> st \<Rightarrow> bool) \<Rightarrow> unit m \<Rightarrow> env \<Rightarrow> bool" where
  "admits_all R hdl env = (admits R hdl env \<and> (\<forall>s s'. plain_step s s' \<longrightarrow> R s s'))"

lemma admits_allD: "admits_all R hdl env \<Longrightarrow> admits R hdl env"
  by (simp add: admits_all_def)

lemma admits_plain:
  assumes "admits_all R hdl env" and "\<And>s. plain_step s (snd (body s))"
  shows "preserves R (bnd (check hdl env) (\<lambda>_. body))"
  by (rule admits_prim [OF admits_allD [OF assms(1)]])
     (use assms in \<open>auto simp: admits_all_def\<close>)

lemma admits_emit: "admits_all R hdl env \<Longrightarrow> is_plain e \<Longrightarrow> preserves R (emit e)"
  by (auto simp: preserves_def admits_all_def emit_def plain_step_def)

lemma admits_popen: "admits_all R hdl env \<Longrightarrow> preserves R (popen hdl env argv)"
  unfolding popen_def
  by (rule admits_plain) (auto simp: plain_step_def split: option.splits)

lemma admits_poll: "admits_all R hdl env \<Longrightarrow> preserves R (poll hdl env h)"
  unfolding poll_def
  by (rule admits_plain) (auto simp: plain_step_def split: option.splits)

lemma admits_wait: "admits_all R hdl env \<Longrightarrow> preserves R (wait hdl env h secs)"
  unfolding wait_def
  by (rule admits_plain) (auto simp: plain_step_def split: option.splits)

lemma admits_wait_exit: "admits_all R hdl env \<Longrightarrow> preserves R (wait_exit hdl env h)"
  unfolding wait_exit_def
  by (rule admits_plain) (auto simp: plain_step_def split: option.splits)

lemma admits_terminate: "admits_all R hdl env \<Longrightarrow> preserves R (terminate hdl env h)"
  unfolding terminate_def
  by (rule admits_plain) (auto simp: plain_step_def)

lemma admits_kill: "admits_all R hdl env \<Longrightarrow> preserves R (kill hdl env h)"
  unfolding kill_def
  by (rule admits_plain) (auto simp: plain_step_def)

lemma admits_readline: "admits_all R hdl env \<Longrightarrow> preserves R (readline hdl env h)"
  unfolding readline_def
  by (rule admits_plain) (auto simp: plain_step_def split: read_outcome.splits)

lemma admits_drain: "admits_all R hdl env \<Longrightarrow> preserves R (drain hdl env h)"
  unfolding drain_def
  by (rule admits_plain) (auto simp: plain_step_def split: drain_outcome.splits)

lemma admits_track_server2: "admits_all R hdl env \<Longrightarrow> preserves R (track_server2 p)"
  by (auto simp: preserves_def admits_all_def track_server2_def plain_step_def)

lemma admits_track_server1: "admits_all R hdl env \<Longrightarrow> preserves R (track_server1 p)"
  by (auto simp: preserves_def admits_all_def track_server1_def plain_step_def)

lemma admits_reap:
  assumes "admits_all R hdl env"
  shows "preserves R (reap hdl env process)"
proof -
  note a = admits_allD [OF assms]
  show ?thesis
    unfolding reap_def
    by (auto intro!: admits_bnd [OF a] admits_thn [OF a] admits_try_except [OF a]
        admits_poll [OF assms] admits_terminate [OF assms] admits_wait [OF assms]
        admits_kill [OF assms] admits_return [OF a])
qed

lemma admits_wait_iter:
  assumes "admits_all R hdl env"
  shows "preserves R (wait_iter hdl env server_name expected_output process)"
proof -
  note a = admits_allD [OF assms]
  show ?thesis
    unfolding wait_iter_def
    by (auto intro!: admits_bnd [OF a] admits_thn [OF a] admits_try_except [OF a]
        admits_poll [OF assms] admits_readline [OF assms] admits_emit [OF assms]
        admits_sleep [OF a] admits_return [OF a] admits_raise [OF a]
        split: read_outcome.splits option.splits)
qed

lemma wait_loop_rel:
  assumes "wait_loop hdl env server_name expected_output process timeout start_time s = Some y"
  shows "admits_all R hdl env \<longrightarrow> R s (snd y)"
proof (rule wait_loop.raw_induct [where
      P = "\<lambda>hdl env server_name expected_output process timeout start_time s y.
             admits_all R hdl env \<longrightarrow> R s (snd y)", OF _ assms], goal_cases)
  case (1 loop hdl env server_name expected_output process timeout start_time s y)
  show ?case
  proof
    assume adm: "admits_all R hdl env"
    note a = admits_allD [OF adm]
    obtain r s1 where it: "wait_iter hdl env server_name expected_output process s = (r, s1)"
      by (cases "wait_iter hdl env server_name expected_output process s")
    have r1: "R s s1"
      using admits_wait_iter [OF adm, of server_name expected_output process] it
      unfolding preserves_def by (metis snd_conv)
    show "R s (snd y)"
    proof (cases "int (clock s) - int start_time < timeout * 1000")
      case False
      then have "y = (Ret False, s\<lparr>trace := trace s @ [Log_timeout server_name]\<rparr>)"
        using 1(2) by simp
      moreover have "plain_step s (s\<lparr>trace := trace s @ [Log_timeout server_name]\<rparr>)"
        by (simp add: plain_step_def)
      ultimately show ?thesis using adm by (simp add: admits_all_def)
    next
      case True
      show ?thesis
      proof (cases r)
        case (Ret v)
        show ?thesis
        proof (cases v)
          case None
          then have "loop hdl env server_name expected_output process timeout start_time s1
               = Some y"
            using 1(2) True it Ret by simp
          then have "R s1 (snd y)" using 1(1) adm by blast
          then show ?thesis using r1 admits_trans [OF a] by blast
        next
          case (Some b)
          then show ?thesis using 1(2) True it Ret r1 by auto
        qed
      next
        case (Raise e)
        then show ?thesis using 1(2) True it r1 by auto
      next
        case Blocked
        then show ?thesis using 1(2) True it r1 by auto
      qed
    qed
  qed
qed

lemma admits_wait_for_server_ready:
  assumes "admits_all R hdl env"
  shows "preserves R (wait_for_server_ready hdl env server_name expected_output process timeout)"
  unfolding preserves_def wait_for_server_ready_def
  using wait_loop_rel [of hdl env server_name expected_output process timeout _ _ _ R] assms
    admits_refl [OF admits_allD [OF assms]]
  by (auto split: option.splits)

lemma admits_start_server2:
  assumes "admits_all R hdl env"
  shows "preserves R (start_server2 hdl env)"
proof -
  note a = admits_allD [OF assms]
  show ?thesis
    unfolding start_server2_def
    by (auto intro!: admits_bnd [OF a] admits_thn [OF a] admits_try_except [OF a]
        admits_popen [OF assms] admits_track_server2 [OF assms]
        admits_wait_for_server_ready [OF assms] admits_return [OF a])
qed

lemma admits_start_server1:
  assumes "admits_all R hdl env"
  shows "preserves R (start_server1 hdl env)"
proof -
  note a = admits_allD [OF assms]
  show ?thesis
    unfolding start_server1_def
    by (auto intro!: admits_bnd [OF a] admits_thn [OF a] admits_try_except [OF a]
        admits_popen [OF assms] admits_track_server1 [OF assms]
        admits_wait_for_server_ready [OF assms] admits_return [OF a])
qed

lemma admits_run_client:
  assumes "admits_all R hdl env"
  shows "preserves R (run_client hdl env)"
proof -
  note a = admits_allD [OF assms]
  show ?thesis
    unfolding run_client_def
    by (auto intro!: admits_bnd [OF a] admits_thn [OF a] admits_try_except [OF a]
        admits_popen [OF assms] admits_drain [OF assms] admits_wait_exit [OF assms]
        admits_return [OF a])
qed

lemma admits_startup:
  assumes "admits_all R hdl env"
  shows "preserves R (startup hdl env)"
proof -
  note a = admits_allD [OF assms]
  show ?thesis
    unfolding startup_def
    by (auto intro!: admits_bnd [OF a] admits_start_server2 [OF assms]
        admits_start_server1 [OF assms] admits_run_client [OF assms] admits_return [OF a])
qed

section \<open>How often cleanup runs\<close>

definition ncleanups :: "event list \<Rightarrow> nat" where
  "ncleanups tr = length (filter (\<lambda>e. e = Cleanup_begin) tr)"

fun is_signal :: "event \<Rightarrow> bool" where
  "is_signal (Signal_received n) = True"
| "is_signal _ = False"

definition nsignals :: "event list \<Rightarrow> nat" where
  "nsignals tr = length (filter is_signal tr)"

lemma plain_counts:
  "list_all is_plain evs \<Longrightarrow> ncleanups (tr @ evs) = ncleanups tr \<and> nsignals (tr @ evs) = nsignals tr"
proof (induction evs arbitrary: tr)
  case Nil
  show ?case by simp
next
  case (Cons e evs)
  have "ncleanups (tr @ [e]) = ncleanups tr \<and> nsignals (tr @ [e]) = nsignals tr"
    using Cons.prems by (cases e) (simp_all add: ncleanups_def nsignals_def)
  moreover have "ncleanups ((tr @ [e]) @ evs) = ncleanups (tr @ [e])
      \<and> nsignals ((tr @ [e]) @ evs) = nsignals (tr @ [e])"
    using Cons.IH [of "tr @ [e]"] Cons.prems by simp
  ultimately show ?case by simp
qed

text \<open>Cleanup has begun as many times more as signals were received.\<close>

definition balanced :: "st \<Rightarrow> st \<Rightarrow> bool" where
  "balanced s s' =
     (ncleanups (trace s') + nsignals (trace s) = ncleanups (trace s) + nsignals (trace s'))"

definition same_signals :: "st \<Rightarrow> st \<Rightarrow> bool" where
  "same_signals s s' = (nsignals (trace s') = nsignals (trace s))"

lemma plain_step_balanced: "plain_step s s' \<Longrightarrow> balanced s s'"
  unfolding plain_step_def balanced_def using plain_counts by auto

lemma plain_step_same_signals: "plain_step s s' \<Longrightarrow> same_signals s s'"
  unfolding plain_step_def same_signals_def using plain_counts by auto

lemma admits_cleanup_steps:
  assumes "admits_all R hdl env"
  shows "preserves R (cleanup_steps hdl env)"
proof -
  note a = admits_allD [OF assms(1)]
  have f: "preserves R (\<lambda>s. for_each (processes s) (reap hdl env) s)"
    using admits_for_each [OF a, of "reap hdl env"] admits_reap [OF assms(1)]
    by (simp add: preserves_def)
  show ?thesis
    unfolding cleanup_steps_def
    by (intro admits_thn [OF a] f admits_cleanup_ports [OF a] admits_pkill [OF a])
qed

text \<open>\<^verbatim>\<open>cleanup\<close> keeps every relation that its first step keeps.\<close>

lemma admits_cleanup:
  assumes "admits_all R hdl env" and "\<And>s. R s (s\<lparr>trace := trace s @ [Cleanup_begin]\<rparr>)"
  shows "preserves R (cleanup hdl env)"
proof -
  note a = admits_allD [OF assms(1)]
  have e: "preserves R (emit Cleanup_begin)"
    using assms(2) by (simp add: preserves_def emit_def)
  show ?thesis
    unfolding cleanup_def
    by (intro admits_thn [OF a] e admits_cleanup_steps [OF assms(1)]
        admits_emit [OF assms(1)]) simp
qed

lemma admits_all_quiet:
  assumes "quiet hdl env" and "\<And>s. R s s" and "\<And>a b c. R a b \<Longrightarrow> R b c \<Longrightarrow> R a c"
    and "\<And>s s'. plain_step s s' \<Longrightarrow> R s s'"
  shows "admits_all R hdl env"
proof -
  have "R s (s\<lparr>tick := Suc (tick s)\<rparr>)" for s
    by (rule assms(4)) (simp add: plain_step_def)
  then have "preserves R (check hdl env)"
    using assms(1) by (simp add: preserves_def quiet_def)
  then show ?thesis
    unfolding admits_all_def admits_def
    using assms(2,3,4) tool_step_plain by blast
qed


lemma balanced_refl: "balanced s s"
  by (simp add: balanced_def)

lemma balanced_trans: "balanced a b \<Longrightarrow> balanced b c \<Longrightarrow> balanced a c"
  by (simp add: balanced_def)

text \<open>Each call of \<^verbatim>\<open>cleanup\<close> begins cleanup once, and once more for a signal it receives.\<close>

lemma cleanup_counts:
  assumes "admits_all balanced hdl env"
  shows "ncleanups (trace (snd (cleanup hdl env s))) + nsignals (trace s)
     = Suc (ncleanups (trace s) + nsignals (trace (snd (cleanup hdl env s))))"
proof -
  note a = admits_allD [OF assms]
  let ?s0 = "s\<lparr>trace := trace s @ [Cleanup_begin]\<rparr>"
  let ?rest = "thn (cleanup_steps hdl env) (emit Cleanup_end)"
  have "preserves balanced ?rest"
    by (intro admits_thn [OF a] admits_cleanup_steps [OF assms] admits_emit [OF assms]) simp
  then have "balanced ?s0 (snd (?rest ?s0))" by (simp add: preserves_def)
  moreover have "cleanup hdl env s = ?rest ?s0"
    by (simp add: cleanup_def thn_def bnd_def emit_def)
  ultimately show ?thesis
    by (simp add: balanced_def ncleanups_def nsignals_def)
qed

lemma admits_all_balanced_return: "admits_all balanced (return ()) env"
  by (rule admits_all_quiet [OF quiet_return])
     (auto intro: balanced_refl balanced_trans plain_step_balanced)

lemma balanced_signal_handler: "preserves balanced (signal_handler env)"
  unfolding preserves_def
proof
  fix s :: st
  let ?s0 = "s\<lparr>trace := trace s @ [Signal_received (signum env)]\<rparr>"
  obtain r s1 where c: "cleanup (return ()) env ?s0 = (r, s1)"
    by (cases "cleanup (return ()) env ?s0")
  have "ncleanups (trace s1) + nsignals (trace ?s0) = Suc (ncleanups (trace ?s0) + nsignals (trace s1))"
    using cleanup_counts [OF admits_all_balanced_return, of env ?s0] c by simp
  then have "balanced s s1"
    by (simp add: balanced_def ncleanups_def nsignals_def)
  moreover have "snd (signal_handler env s) = s1"
    by (cases r) (simp_all add: signal_handler_def thn_def bnd_def emit_def c raise_def)
  ultimately show "balanced s (snd (signal_handler env s))" by simp
qed

lemma admits_all_balanced: "admits_all balanced (signal_handler env) env"
proof -
  have "balanced s (snd (check (signal_handler env) env s))" for s
  proof (cases "signal_at env = Some (tick s)")
    case True
    have "balanced (s\<lparr>tick := Suc (tick s)\<rparr>)
        (snd (signal_handler env (s\<lparr>tick := Suc (tick s)\<rparr>)))"
      using balanced_signal_handler [of env] unfolding preserves_def by blast
    then show ?thesis using True by (simp add: check_def balanced_def)
  next
    case False
    then show ?thesis by (simp add: check_def balanced_def)
  qed
  then have "preserves balanced (check (signal_handler env) env)"
    by (simp add: preserves_def)
  then show ?thesis
    unfolding admits_all_def admits_def
    using balanced_refl balanced_trans plain_step_balanced tool_step_plain by blast
qed


lemma admits_run:
  assumes "admits_all R (signal_handler env) env"
    and "\<And>s. R s (s\<lparr>trace := trace s @ [Cleanup_begin]\<rparr>)"
  shows "preserves R (run env)"
proof -
  note a = admits_allD [OF assms(1)]
  show ?thesis
    unfolding run_def
    by (auto intro!: admits_bnd [OF a] admits_preflight [OF a] admits_return [OF a]
        admits_try_finally [OF a] admits_try_except [OF a] admits_startup [OF assms(1)]
        admits_cleanup [OF assms])
qed

lemma same_signals_run:
  assumes "signal_at env = None"
  shows "nsignals (trace (snd (run env s))) = nsignals (trace s)"
proof -
  have "admits_all same_signals (signal_handler env) env"
    by (rule admits_all_quiet [OF quiet_no_signal [OF assms]])
       (auto simp: same_signals_def dest: plain_step_same_signals)
  then have "preserves same_signals (run env)"
    by (rule admits_run) (simp add: same_signals_def nsignals_def)
  then show ?thesis by (simp add: preserves_def same_signals_def)
qed

lemma balanced_run:
  assumes "fst (run env s) \<noteq> Blocked"
  shows "ncleanups (trace (snd (run env s))) + nsignals (trace s) =
     ncleanups (trace s) + nsignals (trace (snd (run env s)))
       + (if fst (preflight (signal_handler env) env s) = Ret True then 1 else 0)"
proof -
  let ?H = "signal_handler env"
  note adm = admits_all_balanced [of env]
  note a = admits_allD [OF adm]
  obtain r0 s0 where p: "preflight ?H env s = (r0, s0)" by (cases "preflight ?H env s")
  have b0: "balanced s s0"
    using admits_preflight [OF a] p unfolding preserves_def by (metis snd_conv)
  show ?thesis
  proof (cases "r0 = Ret True")
    case False
    then have "snd (run env s) = s0"
      by (cases r0) (auto simp: run_def bnd_def p return_def)
    then show ?thesis using b0 False p by (simp add: balanced_def)
  next
    case True
    let ?body = "try_except (startup ?H env) run_caught (return False)"
    obtain r1 s1 where b: "?body s0 = (r1, s1)" by (cases "?body s0")
    have "preserves balanced ?body"
      by (intro admits_try_except [OF a] admits_startup [OF adm] admits_return [OF a])
    then have b1: "balanced s0 s1" using b unfolding preserves_def by (metis snd_conv)
    have run_eq: "run env s = try_finally ?body (cleanup ?H env) s0"
      using True by (simp add: run_def bnd_def p)
    have nb: "r1 \<noteq> Blocked"
      using assms by (auto simp: run_eq try_finally_def b)
    obtain r2 s2 where c: "cleanup ?H env s1 = (r2, s2)" by (cases "cleanup ?H env s1")
    have "snd (run env s) = s2"
      using nb by (cases r1; cases r2) (simp_all add: run_eq try_finally_def b c)
    moreover have "ncleanups (trace s2) + nsignals (trace s1)
        = Suc (ncleanups (trace s1) + nsignals (trace s2))"
      using cleanup_counts [OF adm, of s1] c by simp
    ultimately show ?thesis using b0 b1 True p by (simp add: balanced_def)
  qed
qed

text \<open>C2, amended. There is no guard against running \<^verbatim>\<open>cleanup\<close> again. In a run that ends,
  cleanup begins once in the \<^verbatim>\<open>finally\<close> block exactly when the pre-flight check passed and
  the \<^verbatim>\<open>try\<close> block was entered, and once more for a signal received; with no signal
  arriving, none is received. So a run without a signal that passes pre-flight cleans up
  exactly once, whichever step ends it; a run that fails pre-flight does not clean up; and a
  signal that arrives after pre-flight makes it two.\<close>

theorem run_cleanup_count:
  assumes "fst (run env s) \<noteq> Blocked"
  shows "ncleanups (trace (snd (run env s))) + nsignals (trace s) =
     ncleanups (trace s) + nsignals (trace (snd (run env s)))
       + (if fst (preflight (signal_handler env) env s) = Ret True then 1 else 0)
     \<and> (signal_at env = None \<longrightarrow> nsignals (trace (snd (run env s))) = nsignals (trace s))"
  using balanced_run [OF assms] same_signals_run by blast

section \<open>Evaluating the loop\<close>

definition wait_step ::
  "bool option res \<times> st \<Rightarrow> (st \<Rightarrow> (bool res \<times> st) option) \<Rightarrow> (bool res \<times> st) option" where
  "wait_step r k = (case r of
      (Ret (Some b), s') \<Rightarrow> Some (Ret b, s')
    | (Ret None, s') \<Rightarrow> k s'
    | (Raise e, s') \<Rightarrow> Some (Raise e, s')
    | (Blocked, s') \<Rightarrow> Some (Blocked, s'))"

lemma wait_step_simps [simp]:
  "wait_step (Ret (Some b), s') k = Some (Ret b, s')"
  "wait_step (Ret None, s') k = k s'"
  "wait_step (Raise e, s') k = Some (Raise e, s')"
  "wait_step (Blocked, s') k = Some (Blocked, s')"
  by (simp_all add: wait_step_def)

lemma wait_loop_unfold:
  "wait_loop hdl env server_name expected_output process timeout start_time s =
     (if int (clock s) - int start_time < timeout * 1000 then
        wait_step (wait_iter hdl env server_name expected_output process s)
          (wait_loop hdl env server_name expected_output process timeout start_time)
      else Some (Ret False, s\<lparr>trace := trace s @ [Log_timeout server_name]\<rparr>))"
  by (subst wait_loop.simps)
     (simp add: wait_step_def split: prod.splits res.splits option.splits)

lemmas proc_defs = popen_def poll_def wait_def wait_exit_def terminate_def kill_def readline_def
  drain_def reap_def cleanup_def cleanup_steps_def signal_handler_def wait_iter_def
  wait_for_server_ready_def track_server2_def track_server1_def start_server2_def
  start_server1_def run_client_def preflight_def startup_def run_caught_def run_def
  subprocess_run_check_def main_def emit_def try_finally_def check_ports_free_def
  check_port_def wait_loop_unfold

text \<open>A signal arrives while \<^verbatim>\<open>start_server2\<close> waits.\<close>

definition env_sig :: "nat \<Rightarrow> env" where
  "env_sig t = env_idle\<lparr>signal_at := Some t\<rparr>"

text \<open>Every launched process has exited with status 1 when it is first polled.\<close>

definition env_dead :: env where
  "env_dead = env_idle\<lparr>os_poll := (\<lambda>_ _. Some 1)\<rparr>"

lemma run_env_sig:
  "fst (run (env_sig 9) init_st) = Raise (SystemExit 0)"
  "ncleanups (trace (snd (run (env_sig 9) init_st))) = 2"
  by (simp_all add: proc_defs run_defs env_sig_def env_idle_def init_st_def ncleanups_def)

lemma run_env_dead:
  "fst (run env_dead init_st) = Ret False"
  "fst (preflight (signal_handler env_dead) env_dead init_st) = Ret True"
  "ncleanups (trace (snd (run env_dead init_st))) = 1"
  by (simp_all add: proc_defs run_defs env_dead_def env_idle_def init_st_def ncleanups_def)


lemma main_env_sig:
  "fst (main (env_sig 10) init_st) = Raise (SystemExit 0)"
  "filter (\<lambda>e. e = Signal_received 2 \<or> e = Cleanup_begin \<or> e = Cleanup_end
       \<or> e = Spawned [''just'', ''server2''] 0 \<or> e = Terminate 0)
     (trace (snd (main (env_sig 10) init_st)))
   = [Spawned [''just'', ''server2''] 0, Signal_received 2, Cleanup_begin, Terminate 0,
      Cleanup_end, Cleanup_begin, Cleanup_end]"
  by (simp_all add: proc_defs run_defs env_sig_def env_idle_def init_st_def)

text \<open>C1 at a failing input: \<^verbatim>\<open>SIGINT\<close> arrives while \<^verbatim>\<open>start_server2\<close> waits for its server.
  The handler tears down, and then calls \<^verbatim>\<open>sys.exit(0)\<close>: the exit status is 0, where an
  interrupted run is a failed run.\<close>

theorem interrupted_run_exits_zero:
  "exit_code (env_sig 10) = Some 0
   \<and> Cleanup_end \<in> set (trace (snd (main (env_sig 10) init_st)))"
proof -
  have "Cleanup_end \<in> set (filter (\<lambda>e. e = Signal_received 2 \<or> e = Cleanup_begin
       \<or> e = Cleanup_end \<or> e = Spawned [''just'', ''server2''] 0 \<or> e = Terminate 0)
     (trace (snd (main (env_sig 10) init_st))))"
    by (simp only: main_env_sig) simp
  then show ?thesis
    by (simp add: exit_code_def main_env_sig(1))
qed

text \<open>C2, as stated, fails: the signal of the run above is handled by a first teardown, and
  the \<^verbatim>\<open>SystemExit\<close> of the handler then passes the \<^verbatim>\<open>finally\<close> block of \<^verbatim>\<open>run\<close>, which tears
  down a second time.\<close>

theorem signal_in_try_cleans_up_twice:
  "ncleanups (trace init_st) = 0 \<and> ncleanups (trace (snd (run (env_sig 9) init_st))) = 2"
  by (simp add: run_env_sig(2)) (simp add: init_st_def ncleanups_def)

theorem run_cleanup_count_witness:
  "fst (run env_dead init_st) \<noteq> Blocked \<and> signal_at env_dead = None
   \<and> ncleanups (trace (snd (run env_dead init_st))) + nsignals (trace init_st) =
       ncleanups (trace init_st) + nsignals (trace (snd (run env_dead init_st))) + 1
   \<and> nsignals (trace (snd (run env_dead init_st))) = nsignals (trace init_st)"
proof -
  have a: "fst (run env_dead init_st) \<noteq> Blocked" by (simp add: run_env_dead(1))
  have b: "signal_at env_dead = None" by (simp add: env_dead_def env_idle_def)
  show ?thesis
    using a b run_cleanup_count [OF a] by (simp add: run_env_dead(2))
qed

text \<open>The server is alive and prints nothing: \<^verbatim>\<open>readline\<close> does not return.\<close>

definition env_silent :: env where
  "env_silent = env_idle\<lparr>os_readline := (\<lambda>_ _. RHang)\<rparr>"

text \<open>C3 at a failing input: the server process lives and prints nothing. The loop polls the
  process once and calls \<^verbatim>\<open>readline\<close>, which blocks on the pipe: the call neither sleeps and
  polls again nor returns \<^verbatim>\<open>False\<close> after its 30 seconds.\<close>

theorem wait_for_server_ready_blocks_on_silent_process:
  "fst (wait_for_server_ready (return ()) env_silent ''Server2'' ''Server2 listening on'' 0 30
      init_st) = Blocked
   \<and> trace (snd (wait_for_server_ready (return ()) env_silent ''Server2''
      ''Server2 listening on'' 0 30 init_st)) = []"
  by (simp add: proc_defs run_defs env_silent_def env_idle_def init_st_def)

section \<open>cleanup returns, and spares the processes it has reaped\<close>

lemma only_emit: "only P (emit e)"
  by (simp add: only_def emit_def)

lemma only_poll: "quiet hdl env \<Longrightarrow> only P (poll hdl env h)"
  by (simp add: only_def poll_def bnd_def quiet_def split: option.splits)

lemma only_terminate: "quiet hdl env \<Longrightarrow> only P (terminate hdl env h)"
  by (simp add: only_def terminate_def bnd_def quiet_def)

lemma only_kill: "quiet hdl env \<Longrightarrow> only P (kill hdl env h)"
  by (simp add: only_def kill_def bnd_def quiet_def)

lemma only_wait: "quiet hdl env \<Longrightarrow> only (\<lambda>e. e = TimeoutExpired) (wait hdl env h secs)"
  by (simp add: only_def wait_def bnd_def quiet_def split: option.splits)

lemma only_wait_caught:
  assumes "quiet hdl env" and "only P f"
  shows "only P (try_except (thn (wait hdl env h secs) (return ())) (\<lambda>e. e = TimeoutExpired) f)"
  by (rule only_try_except [where Q = "\<lambda>e. e = TimeoutExpired"])
     (simp_all add: only_thn only_wait [OF assms(1)] only_return assms(2))

lemma only_reap:
  assumes "quiet hdl env"
  shows "only P (reap hdl env process)"
  unfolding reap_def
  by (rule only_bnd [OF only_poll [OF assms]])
     (simp add: only_return only_thn only_terminate [OF assms] only_kill [OF assms]
        only_wait_caught [OF assms])

lemma only_cleanup_steps:
  assumes "quiet hdl env" and "exec_raises env os_or_subprocess"
  shows "only P (cleanup_steps hdl env)"
proof -
  have f: "only P (\<lambda>s. for_each (processes s) (reap hdl env) s)"
    using only_for_each [of P "reap hdl env"] only_reap [OF assms(1), of P]
    by (simp add: only_def)
  have p: "only P (try_except
      (thn (subprocess_run hdl env [''pkill'', ''-f'', ''rpc_server'']) (return ()))
      os_or_subprocess (return ()))"
    by (rule only_try_except [where Q = os_or_subprocess])
       (simp_all add: only_thn only_subprocess_run [OF assms] only_return)
  show ?thesis
    unfolding cleanup_steps_def
    by (intro only_thn f p only_cleanup_ports [OF assms])
qed

lemma only_cleanup:
  assumes "quiet hdl env" and "exec_raises env os_or_subprocess"
  shows "only P (cleanup hdl env)"
  unfolding cleanup_def
  by (intro only_thn only_emit only_cleanup_steps [OF assms])

text \<open>From \<open>s\<close> to \<open>s'\<close> the tracked processes are the same, a return code once known is kept,
  and \<^verbatim>\<open>terminate\<close> or \<^verbatim>\<open>kill\<close> reached only processes whose return code was not known
  in \<open>s\<close>.\<close>

definition spares :: "st \<Rightarrow> st \<Rightarrow> bool" where
  "spares s s' = (processes s' = processes s
     \<and> (\<forall>h rc. returncode s h = Some rc \<longrightarrow> returncode s' h = Some rc)
     \<and> (\<exists>evs. trace s' = trace s @ evs
          \<and> (\<forall>h. Terminate h \<in> set evs \<or> Kill h \<in> set evs \<longrightarrow> returncode s h = None)))"

lemma spares_refl: "spares s s"
  by (simp add: spares_def)

lemma spares_trans:
  assumes "spares a b" and "spares b c"
  shows "spares a c"
proof -
  obtain evs where e1: "trace b = trace a @ evs"
    "\<forall>h. Terminate h \<in> set evs \<or> Kill h \<in> set evs \<longrightarrow> returncode a h = None"
    using assms(1) unfolding spares_def by blast
  obtain evs' where e2: "trace c = trace b @ evs'"
    "\<forall>h. Terminate h \<in> set evs' \<or> Kill h \<in> set evs' \<longrightarrow> returncode b h = None"
    using assms(2) unfolding spares_def by blast
  have keep: "\<forall>h rc. returncode a h = Some rc \<longrightarrow> returncode b h = Some rc"
    using assms(1) unfolding spares_def by blast
  have "\<forall>h. Terminate h \<in> set (evs @ evs') \<or> Kill h \<in> set (evs @ evs') \<longrightarrow>
        returncode a h = None"
  proof (intro allI impI)
    fix h
    assume "Terminate h \<in> set (evs @ evs') \<or> Kill h \<in> set (evs @ evs')"
    then consider "Terminate h \<in> set evs \<or> Kill h \<in> set evs"
      | "Terminate h \<in> set evs' \<or> Kill h \<in> set evs'" by auto
    then show "returncode a h = None"
    proof cases
      case 1
      then show ?thesis using e1(2) by blast
    next
      case 2
      then have "returncode b h = None" using e2(2) by blast
      then show ?thesis using keep by (cases "returncode a h") auto
    qed
  qed
  moreover have "trace c = trace a @ (evs @ evs')" using e1(1) e2(1) by simp
  moreover have "processes c = processes a"
    "\<forall>h rc. returncode a h = Some rc \<longrightarrow> returncode c h = Some rc"
    using assms unfolding spares_def by auto
  ultimately show ?thesis unfolding spares_def by blast
qed

lemma tool_not_signal:
  "list_all is_tool evs \<Longrightarrow> Terminate h \<notin> set evs \<and> Kill h \<notin> set evs"
  by (auto simp: list_all_iff)

lemma tool_step_spares:
  assumes "tool_step s s'"
  shows "spares s s'"
proof -
  obtain evs where "trace s' = trace s @ evs" "list_all is_tool evs"
    using assms unfolding tool_step_def by blast
  moreover have "processes s' = processes s" "returncode s' = returncode s"
    using assms unfolding tool_step_def by auto
  ultimately show ?thesis
    unfolding spares_def using tool_not_signal by auto
qed

lemma admits_spares:
  assumes "quiet hdl env"
  shows "admits spares hdl env"
proof -
  have "preserves spares (check hdl env)"
    using assms by (simp add: preserves_def quiet_def spares_def)
  then show ?thesis
    unfolding admits_def
    using spares_refl spares_trans tool_step_spares by blast
qed

lemma spares_poll: "quiet hdl env \<Longrightarrow> preserves spares (poll hdl env h)"
  by (auto simp: preserves_def poll_def bnd_def quiet_def spares_def split: option.splits)

lemma spares_wait: "quiet hdl env \<Longrightarrow> preserves spares (wait hdl env h secs)"
  by (auto simp: preserves_def wait_def bnd_def quiet_def spares_def split: option.splits)

lemma spares_terminate: "quiet hdl env \<Longrightarrow> preserves spares (terminate hdl env h)"
  by (auto simp: preserves_def terminate_def bnd_def quiet_def spares_def)

lemma spares_kill: "quiet hdl env \<Longrightarrow> preserves spares (kill hdl env h)"
  by (auto simp: preserves_def kill_def bnd_def quiet_def spares_def)

lemma spares_reap:
  assumes "quiet hdl env"
  shows "preserves spares (reap hdl env process)"
proof -
  note a = admits_spares [OF assms]
  show ?thesis
    unfolding reap_def
    by (auto intro!: admits_bnd [OF a] admits_thn [OF a] admits_try_except [OF a]
        spares_poll [OF assms] spares_terminate [OF assms] spares_wait [OF assms]
        spares_kill [OF assms] admits_return [OF a])
qed

lemma spares_cleanup:
  assumes "quiet hdl env"
  shows "preserves spares (cleanup hdl env)"
proof -
  note a = admits_spares [OF assms]
  have f: "preserves spares (\<lambda>s. for_each (processes s) (reap hdl env) s)"
    using admits_for_each [OF a, of "reap hdl env"] spares_reap [OF assms]
    by (simp add: preserves_def)
  have e: "preserves spares (emit ev)" if "ev = Cleanup_begin \<or> ev = Cleanup_end" for ev
    using that by (auto simp: preserves_def emit_def spares_def)
  show ?thesis
    unfolding cleanup_def cleanup_steps_def
    by (intro admits_thn [OF a] f e admits_cleanup_ports [OF a] admits_pkill [OF a]) simp_all
qed

text \<open>Two calls of \<^verbatim>\<open>cleanup\<close> in succession, for the failures that the code catches: when no
  signal arrives and
  \<^verbatim>\<open>subprocess.run\<close> raises nothing but \<^verbatim>\<open>OSError\<close> and \<^verbatim>\<open>SubprocessError\<close>, both calls return
  without raising, whatever the processes and the tools do (a process may outlive both
  signals, a tool may be missing). The second call keeps the set of tracked processes and
  the return codes the first call has seen, and it sends \<^verbatim>\<open>terminate\<close> or \<^verbatim>\<open>kill\<close> to no process
  that the first call has reaped: no process is signalled again once it is known to be
  dead.\<close>

theorem cleanup_twice:
  assumes "signal_at env = None" and "exec_raises env os_or_subprocess"
  shows "\<exists>s1 s2 evs. cleanup hdl env s = (Ret (), s1) \<and> cleanup hdl env s1 = (Ret (), s2)
     \<and> processes s2 = processes s1
     \<and> (\<forall>h rc. returncode s1 h = Some rc \<longrightarrow> returncode s2 h = Some rc)
     \<and> trace s2 = trace s1 @ evs
     \<and> (\<forall>h. Terminate h \<in> set evs \<or> Kill h \<in> set evs \<longrightarrow> returncode s1 h = None)"
proof -
  have q: "quiet hdl env" using assms(1) by (rule quiet_no_signal)
  obtain s1 where c1: "cleanup hdl env s = (Ret (), s1)"
    using only_RetD [OF only_cleanup [OF q assms(2)], of s] by auto
  obtain s2 where c2: "cleanup hdl env s1 = (Ret (), s2)"
    using only_RetD [OF only_cleanup [OF q assms(2)], of s1] by auto
  have "spares s1 s2"
    using spares_cleanup [OF q] c2 unfolding preserves_def by (metis snd_conv)
  then show ?thesis
    using c1 c2 unfolding spares_def by blast
qed


text \<open>A state in which one launched process is tracked.\<close>

definition tracked_st :: st where
  "tracked_st = init_st\<lparr>processes := [0], server2_process := Some 0, nobjs := 1\<rparr>"

lemma exec_raises_env_idle: "exec_raises env_idle os_or_subprocess"
  by (simp add: exec_raises_def env_idle_def)

lemma cleanup_env_idle:
  "returncode (snd (cleanup (return ()) env_idle tracked_st)) 0 = Some 0"
  by (simp add: proc_defs run_defs env_idle_def tracked_st_def init_st_def)

theorem cleanup_twice_witness:
  "signal_at env_idle = None \<and> exec_raises env_idle os_or_subprocess
   \<and> returncode (snd (cleanup (return ()) env_idle tracked_st)) 0 = Some 0
   \<and> (\<exists>s1 s2 evs. cleanup (return ()) env_idle tracked_st = (Ret (), s1)
        \<and> cleanup (return ()) env_idle s1 = (Ret (), s2)
        \<and> processes s2 = processes s1
        \<and> (\<forall>h rc. returncode s1 h = Some rc \<longrightarrow> returncode s2 h = Some rc)
        \<and> trace s2 = trace s1 @ evs
        \<and> (\<forall>h. Terminate h \<in> set evs \<or> Kill h \<in> set evs \<longrightarrow> returncode s1 h = None))"
proof -
  have a: "signal_at env_idle = None" by (simp add: env_idle_def)
  show ?thesis
    using a exec_raises_env_idle cleanup_env_idle
      cleanup_twice [OF a exec_raises_env_idle, of "return ()" tracked_st]
    by simp
qed

section \<open>Which exceptions leave a call that may block\<close>

definition raises :: "(exn \<Rightarrow> bool) \<Rightarrow> 'a m \<Rightarrow> bool" where
  "raises P f = (\<forall>s e. fst (f s) = Raise e \<longrightarrow> P e)"

lemma only_raises:
  assumes "only P f"
  shows "raises P f"
  unfolding raises_def
proof (intro allI impI)
  fix s e
  assume "fst (f s) = Raise e"
  moreover have "case fst (f s) of Ret _ \<Rightarrow> True | Raise e \<Rightarrow> P e | Blocked \<Rightarrow> False"
    using assms unfolding only_def by blast
  ultimately show "P e" by simp
qed

lemma raises_return: "raises P (return x)"
  by (simp add: raises_def return_def)

lemma raises_raise: "P e \<Longrightarrow> raises P (raise e)"
  by (simp add: raises_def raise_def)

lemma raises_weaken: "raises P f \<Longrightarrow> (\<And>e. P e \<Longrightarrow> Q e) \<Longrightarrow> raises Q f"
  unfolding raises_def by blast

lemma raises_bnd:
  assumes "raises P f" and "\<And>x. raises P (g x)"
  shows "raises P (bnd f g)"
  unfolding raises_def
proof (intro allI impI)
  fix s e
  assume h: "fst (bnd f g s) = Raise e"
  obtain r s' where fs: "f s = (r, s')" by (cases "f s")
  show "P e"
  proof (cases r)
    case (Ret x)
    then have "fst (g x s') = Raise e" using h by (simp add: bnd_def fs)
    then show ?thesis using assms(2) [of x] unfolding raises_def by blast
  next
    case (Raise e')
    then have "e' = e" using h by (simp add: bnd_def fs)
    moreover have "fst (f s) = Raise e'" using fs Raise by simp
    ultimately show ?thesis using assms(1) unfolding raises_def by blast
  next
    case Blocked
    then show ?thesis using h by (simp add: bnd_def fs)
  qed
qed

lemma raises_thn: "raises P f \<Longrightarrow> raises P g \<Longrightarrow> raises P (thn f g)"
  by (simp add: thn_def raises_bnd)

lemma raises_try_except:
  assumes "raises Q f" and "\<And>e. Q e \<Longrightarrow> \<not> C e \<Longrightarrow> P e" and "raises P h"
  shows "raises P (try_except f C h)"
  unfolding raises_def
proof (intro allI impI)
  fix s e
  assume h: "fst (try_except f C h s) = Raise e"
  obtain r s' where fs: "f s = (r, s')" by (cases "f s")
  show "P e"
  proof (cases r)
    case (Raise e')
    have q: "Q e'" using assms(1) fs Raise unfolding raises_def by (metis fst_conv)
    show ?thesis
    proof (cases "C e'")
      case True
      then have "fst (h s') = Raise e" using h by (simp add: try_except_def fs Raise)
      then show ?thesis using assms(3) unfolding raises_def by blast
    next
      case False
      then have "e' = e" using h by (simp add: try_except_def fs Raise)
      then show ?thesis using assms(2) q False by blast
    qed
  qed (use h in \<open>simp_all add: try_except_def fs\<close>)
qed

lemma raises_try_finally:
  assumes "raises P f" and "raises P g"
  shows "raises P (try_finally f g)"
  unfolding raises_def
proof (intro allI impI)
  fix s e
  assume h: "fst (try_finally f g s) = Raise e"
  obtain r s' where fs: "f s = (r, s')" by (cases "f s")
  obtain r' s'' where gs: "g s' = (r', s'')" by (cases "g s'")
  have a: "r = Raise e \<Longrightarrow> P e"
    using assms(1) fs unfolding raises_def by (metis fst_conv)
  have b: "r' = Raise e \<Longrightarrow> P e"
    using assms(2) gs unfolding raises_def by (metis fst_conv)
  show "P e"
    using h a b by (cases r; cases r') (simp_all add: try_finally_def fs gs)
qed

text \<open>The exceptions that neither end the interpreter with a status of their own nor stand
  for a signal.\<close>

fun ordinary :: "exn \<Rightarrow> bool" where
  "ordinary (SystemExit c) = False"
| "ordinary KeyboardInterrupt = False"
| "ordinary _ = True"

lemma os_or_subprocess_ordinary: "os_or_subprocess e \<Longrightarrow> ordinary e"
  by (cases e) (simp_all add: os_or_subprocess_def)

text \<open>What the outside world may raise: \<^verbatim>\<open>subprocess.run\<close> only \<^verbatim>\<open>OSError\<close> and
  \<^verbatim>\<open>SubprocessError\<close>; \<^verbatim>\<open>Popen\<close> and the reads of a pipe only ordinary exceptions.\<close>

definition oracles_ordinary :: "env \<Rightarrow> bool" where
  "oracles_ordinary env = (exec_raises env os_or_subprocess
     \<and> (\<forall>n argv. case spawn env n argv of Some e \<Rightarrow> ordinary e | None \<Rightarrow> True)
     \<and> (\<forall>h j. case os_readline env h j of RRaise e \<Rightarrow> ordinary e | _ \<Rightarrow> True)
     \<and> (\<forall>h. case os_drain env h of DrainRaise e \<Rightarrow> ordinary e | _ \<Rightarrow> True))"

lemma raises_popen:
  assumes "quiet hdl env" and "oracles_ordinary env"
  shows "raises ordinary (popen hdl env argv)"
  unfolding raises_def
proof (intro allI impI)
  fix s :: st and e
  assume h: "fst (popen hdl env argv s) = Raise e"
  have "case spawn env (Suc (tick s)) argv of Some e \<Rightarrow> ordinary e | None \<Rightarrow> True"
    using assms(2) unfolding oracles_ordinary_def by blast
  then show "ordinary e"
    using h assms(1) by (auto simp: popen_def bnd_def quiet_def split: option.splits)
qed

lemma raises_readline:
  assumes "quiet hdl env" and "oracles_ordinary env"
  shows "raises ordinary (readline hdl env p)"
  unfolding raises_def
proof (intro allI impI)
  fix s :: st and e
  assume h: "fst (readline hdl env p s) = Raise e"
  have "case os_readline env p (nreads s p) of RRaise e \<Rightarrow> ordinary e | _ \<Rightarrow> True"
    using assms(2) unfolding oracles_ordinary_def by blast
  then show "ordinary e"
    using h assms(1)
    by (auto simp: readline_def bnd_def quiet_def split: read_outcome.splits)
qed

lemma raises_drain:
  assumes "quiet hdl env" and "oracles_ordinary env"
  shows "raises ordinary (drain hdl env p)"
  unfolding raises_def
proof (intro allI impI)
  fix s :: st and e
  assume h: "fst (drain hdl env p s) = Raise e"
  have "case os_drain env p of DrainRaise e \<Rightarrow> ordinary e | _ \<Rightarrow> True"
    using assms(2) unfolding oracles_ordinary_def by blast
  then show "ordinary e"
    using h assms(1)
    by (auto simp: drain_def bnd_def quiet_def split: drain_outcome.splits)
qed

lemma raises_wait_exit: "quiet hdl env \<Longrightarrow> raises P (wait_exit hdl env p)"
  by (auto simp: raises_def wait_exit_def bnd_def quiet_def split: option.splits)

lemma raises_track_server2: "raises P (track_server2 p)"
  by (simp add: raises_def track_server2_def)

lemma raises_track_server1: "raises P (track_server1 p)"
  by (simp add: raises_def track_server1_def)


lemma raises_wait_iter:
  assumes "quiet hdl env" and "oracles_ordinary env"
  shows "raises ordinary (wait_iter hdl env server_name expected_output process)"
proof -
  have rd: "raises ordinary (bnd (readline hdl env process) (\<lambda>line.
       case line of
         RLine l \<Rightarrow>
           if contains expected_output (strip l)
           then thn (emit (Log_ready server_name)) (return (Some True))
           else return None
       | RUndecodable \<Rightarrow> raise UnicodeDecodeError
       | _ \<Rightarrow> return None))"
    by (rule raises_bnd [OF raises_readline [OF assms]])
       (auto simp: raises_return raises_raise intro!: raises_thn only_raises [OF only_emit]
          split: read_outcome.splits)
  have tr: "raises ordinary (try_except (bnd (readline hdl env process) (\<lambda>line.
       case line of
         RLine l \<Rightarrow>
           if contains expected_output (strip l)
           then thn (emit (Log_ready server_name)) (return (Some True))
           else return None
       | RUndecodable \<Rightarrow> raise UnicodeDecodeError
       | _ \<Rightarrow> return None))
      (\<lambda>e. is_OSError e \<or> e = UnicodeDecodeError) (return None))"
    by (rule raises_try_except [OF rd]) (simp_all add: raises_return)
  show ?thesis
    unfolding wait_iter_def
    by (rule raises_bnd [OF only_raises [OF only_poll [OF assms(1)]]])
       (auto simp: raises_return
          intro!: raises_thn raises_bnd [OF tr] only_raises [OF only_emit]
            only_raises [OF only_sleep [OF assms(1)]]
          split: option.splits)
qed

lemma wait_loop_raises:
  assumes "wait_loop hdl env server_name expected_output process timeout start_time s = Some y"
  shows "quiet hdl env \<longrightarrow> oracles_ordinary env \<longrightarrow> (\<forall>e. fst y = Raise e \<longrightarrow> ordinary e)"
proof (rule wait_loop.raw_induct [where
      P = "\<lambda>hdl env server_name expected_output process timeout start_time s y.
             quiet hdl env \<longrightarrow> oracles_ordinary env \<longrightarrow> (\<forall>e. fst y = Raise e \<longrightarrow> ordinary e)",
      OF _ assms], goal_cases)
  case (1 loop hdl env server_name expected_output process timeout start_time s y)
  show ?case
  proof (intro impI allI)
    fix e
    assume q: "quiet hdl env" and o: "oracles_ordinary env" and y: "fst y = Raise e"
    obtain r s1 where it: "wait_iter hdl env server_name expected_output process s = (r, s1)"
      by (cases "wait_iter hdl env server_name expected_output process s")
    have r1: "r = Raise e \<Longrightarrow> ordinary e"
      using raises_wait_iter [OF q o, of server_name expected_output process] it
      unfolding raises_def by (metis fst_conv)
    show "ordinary e"
    proof (cases "int (clock s) - int start_time < timeout * 1000")
      case False
      then show ?thesis using 1(2) y by auto
    next
      case True
      show ?thesis
      proof (cases r)
        case (Ret v)
        show ?thesis
        proof (cases v)
          case None
          then have "loop hdl env server_name expected_output process timeout start_time s1
               = Some y"
            using 1(2) True it Ret by simp
          then show ?thesis using 1(1) q o y by blast
        next
          case (Some b)
          then show ?thesis using 1(2) True it Ret y by auto
        qed
      next
        case (Raise e')
        then show ?thesis using 1(2) True it r1 y by auto
      next
        case Blocked
        then show ?thesis using 1(2) True it y by auto
      qed
    qed
  qed
qed

lemma raises_wait_for_server_ready:
  assumes "quiet hdl env" and "oracles_ordinary env"
  shows "raises ordinary
     (wait_for_server_ready hdl env server_name expected_output process timeout)"
  unfolding raises_def wait_for_server_ready_def
  using wait_loop_raises [of hdl env server_name expected_output process timeout] assms
  by (auto split: option.splits)

lemma raises_start_server2:
  assumes "quiet hdl env" and "oracles_ordinary env"
  shows "raises ordinary (start_server2 hdl env)"
  unfolding start_server2_def
  by (rule raises_try_except [where Q = ordinary])
     (auto simp: raises_return
        intro!: raises_bnd raises_thn raises_popen [OF assms] raises_track_server2
          raises_wait_for_server_ready [OF assms])

lemma raises_start_server1:
  assumes "quiet hdl env" and "oracles_ordinary env"
  shows "raises ordinary (start_server1 hdl env)"
  unfolding start_server1_def
  by (rule raises_try_except [where Q = ordinary])
     (auto simp: raises_return
        intro!: raises_bnd raises_thn raises_popen [OF assms] raises_track_server1
          raises_wait_for_server_ready [OF assms])

lemma raises_run_client:
  assumes "quiet hdl env" and "oracles_ordinary env"
  shows "raises ordinary (run_client hdl env)"
  unfolding run_client_def
  by (rule raises_try_except [where Q = ordinary])
     (auto simp: raises_return
        intro!: raises_bnd raises_thn raises_popen [OF assms] raises_drain [OF assms]
          raises_wait_exit [OF assms(1)])

lemma raises_startup:
  assumes "quiet hdl env" and "oracles_ordinary env"
  shows "raises ordinary (startup hdl env)"
  unfolding startup_def
  by (auto simp: raises_return
      intro!: raises_bnd raises_start_server2 [OF assms] raises_start_server1 [OF assms]
        raises_run_client [OF assms])

lemma only_check_port:
  assumes "quiet hdl env" and "exec_raises env os_or_subprocess"
  shows "only P (check_port hdl env port)"
  unfolding check_port_def
  by (rule only_try_except [where Q = os_or_subprocess])
     (auto simp: only_return intro!: only_bnd only_subprocess_run [OF assms])

lemma only_check_ports_free:
  assumes "quiet hdl env" and "exec_raises env os_or_subprocess"
  shows "only P (check_ports_free hdl env)"
  unfolding check_ports_free_def ports_def
  by (auto simp: only_return intro!: only_bnd only_check_port [OF assms] split: option.splits)

lemma only_preflight:
  assumes "quiet hdl env" and "exec_raises env os_or_subprocess"
  shows "only os_or_subprocess (preflight hdl env)"
  unfolding preflight_def
  by (auto simp: only_return
      intro!: only_thn only_bnd only_cleanup_ports [OF assms] only_check_ports_free [OF assms]
        only_subprocess_run [OF assms] only_sleep [OF assms(1)])


section \<open>The exit status\<close>

text \<open>The run fully succeeds: the declaration file is there, the task runner answers, the
  ports are free after the pre-flight cleanup, both servers become ready, and the client
  exits with status 0.\<close>

definition full_success :: "env \<Rightarrow> bool" where
  "full_success env = (path_exists env ''justfile'' \<and>
     (case subprocess_run_check (return ()) env [''just'', ''--version''] init_st of
        (Ret _, s0) \<Rightarrow>
          (case preflight (signal_handler env) env s0 of
             (Ret True, s1) \<Rightarrow>
               (case start_server2 (signal_handler env) env s1 of
                  (Ret True, s2) \<Rightarrow>
                    (case start_server1 (signal_handler env) env s2 of
                       (Ret True, s3) \<Rightarrow> fst (run_client (signal_handler env) env s3) = Ret True
                     | _ \<Rightarrow> False)
                | _ \<Rightarrow> False)
           | _ \<Rightarrow> False)
      | _ \<Rightarrow> False))"

lemma startup_true_iff:
  "fst (startup hdl env s) = Ret True \<longleftrightarrow>
     (case start_server2 hdl env s of
        (Ret True, s2) \<Rightarrow>
          (case start_server1 hdl env s2 of
             (Ret True, s3) \<Rightarrow> fst (run_client hdl env s3) = Ret True
           | _ \<Rightarrow> False)
      | _ \<Rightarrow> False)"
  by (auto simp: startup_def bnd_def return_def split: prod.splits res.splits bool.splits)

lemma exit_status_ordinary: "ordinary e \<Longrightarrow> exit_status (Raise e) = Some 1"
  by (cases e) simp_all

lemma run_outcome:
  assumes "signal_at env = None" and "oracles_ordinary env"
  shows "fst (run env s) = Ret True \<longleftrightarrow>
     (case preflight (signal_handler env) env s of
        (Ret True, s1) \<Rightarrow> fst (startup (signal_handler env) env s1) = Ret True
      | _ \<Rightarrow> False)"
proof -
  let ?H = "signal_handler env"
  have q: "quiet ?H env" using assms(1) by (rule quiet_no_signal)
  have x: "exec_raises env os_or_subprocess" using assms(2) by (simp add: oracles_ordinary_def)
  obtain r0 s0 where p: "preflight ?H env s = (r0, s0)" by (cases "preflight ?H env s")
  show ?thesis
  proof (cases "r0 = Ret True")
    case False
    then show ?thesis
      by (cases r0) (auto simp: run_def bnd_def p return_def)
  next
    case True
    obtain r1 s1 where b: "startup ?H env s0 = (r1, s1)" by (cases "startup ?H env s0")
    have c: "\<exists>s'. cleanup ?H env s'' = (Ret (), s')" for s''
      using only_RetD [OF only_cleanup [OF q x], of s''] by auto
    have "fst (run env s) = Ret True \<longleftrightarrow> r1 = Ret True"
    proof (cases r1)
      case (Ret v)
      obtain s2 where "cleanup ?H env s1 = (Ret (), s2)" using c by blast
      then show ?thesis
        using True by (simp add: run_def bnd_def p try_finally_def try_except_def b Ret)
    next
      case (Raise e)
      obtain s2 where "cleanup ?H env s1 = (Ret (), s2)" using c by blast
      then show ?thesis
        using True
        by (simp add: run_def bnd_def p try_finally_def try_except_def b Raise return_def)
    next
      case Blocked
      then show ?thesis
        using True by (simp add: run_def bnd_def p try_finally_def try_except_def b)
    qed
    then show ?thesis using True by (simp add: p b)
  qed
qed

lemma raises_run:
  assumes "signal_at env = None" and "oracles_ordinary env"
  shows "raises ordinary (run env)"
proof -
  let ?H = "signal_handler env"
  have q: "quiet ?H env" using assms(1) by (rule quiet_no_signal)
  have x: "exec_raises env os_or_subprocess" using assms(2) by (simp add: oracles_ordinary_def)
  have p: "raises ordinary (preflight ?H env)"
    by (rule raises_weaken [OF only_raises [OF only_preflight [OF q x]]])
       (rule os_or_subprocess_ordinary)
  have b: "raises ordinary (try_except (startup ?H env) run_caught (return False))"
    by (rule raises_try_except [OF raises_startup [OF q assms(2)]])
       (simp_all add: raises_return)
  have c: "raises ordinary (cleanup ?H env)"
    by (rule only_raises [OF only_cleanup [OF q x]])
  show ?thesis
    unfolding run_def
    by (rule raises_bnd [OF p]) (simp add: raises_return raises_try_finally [OF b c])
qed

lemma only_subprocess_run_check:
  assumes "quiet hdl env" and "exec_raises env os_or_subprocess"
  shows "only os_or_subprocess (subprocess_run_check hdl env argv)"
  unfolding subprocess_run_check_def
  by (rule only_bnd [OF only_subprocess_run [OF assms]])
     (auto simp: only_return os_or_subprocess_def intro!: only_raise)

text \<open>The exit status of the runs in which no signal arrives (and the outside world raises
  only ordinary exceptions): it is 0 exactly when the run fully succeeds. In every other
  case in which the process exits at all, the status is 1: a missing \<^verbatim>\<open>justfile\<close>, a missing
  or failing \<^verbatim>\<open>just\<close>, ports still taken after the second cleanup, a server that does not
  start or does not become ready, a client that fails.\<close>

theorem exit_code_zero_iff_success:
  assumes "signal_at env = None" and "oracles_ordinary env"
  shows "exit_code env =
     (if full_success env then Some 0
      else if fst (main env init_st) = Blocked then None
      else Some 1)"
proof (cases "path_exists env ''justfile''")
  case False
  then show ?thesis
    by (simp add: exit_code_def main_def raise_def full_success_def)
next
  case True
  let ?H = "signal_handler env"
  let ?chk = "subprocess_run_check (return ()) env [''just'', ''--version'']"
  have x: "exec_raises env os_or_subprocess" using assms(2) by (simp add: oracles_ordinary_def)
  obtain r0 s0 where c: "?chk init_st = (r0, s0)" by (cases "?chk init_st")
  have r0: "case r0 of Ret _ \<Rightarrow> True | Raise e \<Rightarrow> os_or_subprocess e | Blocked \<Rightarrow> False"
    using only_subprocess_run_check [OF quiet_return x, of "[''just'', ''--version'']"] c
    unfolding only_def by (metis fst_conv)
  show ?thesis
  proof (cases r0)
    case Blocked
    then show ?thesis using r0 by simp
  next
    case (Raise e)
    then have "ordinary e" using r0 by (simp add: os_or_subprocess_ordinary)
    then show ?thesis
      using True Raise
      by (simp add: exit_code_def main_def thn_def bnd_def try_except_def c raise_def
          full_success_def exit_status_ordinary)
  next
    case (Ret v)
    have m: "main env init_st =
        bnd (run env) (\<lambda>success. if success then raise (SystemExit 0)
           else raise (SystemExit 1)) s0"
      using True by (simp add: main_def thn_def bnd_def try_except_def c Ret return_def)
    have fs: "full_success env \<longleftrightarrow> fst (run env s0) = Ret True"
      using True
      by (simp add: full_success_def c Ret run_outcome [OF assms] startup_true_iff
          split: prod.splits res.splits bool.splits)
    obtain r s' where r: "run env s0 = (r, s')" by (cases "run env s0")
    show ?thesis
    proof (cases r)
      case (Ret b)
      then show ?thesis
        using fs by (simp add: exit_code_def m bnd_def r raise_def)
    next
      case (Raise e)
      have "ordinary e"
        using raises_run [OF assms] r Raise unfolding raises_def by (metis fst_conv)
      then show ?thesis
        using fs Raise by (simp add: exit_code_def m bnd_def r exit_status_ordinary)
    next
      case Blocked
      then show ?thesis
        using fs by (simp add: exit_code_def m bnd_def r)
    qed
  qed
qed


text \<open>Both servers print their marker inside a longer log line, after a line of the build
  tool and a pause, and the client exits with status 0.\<close>

definition env_ready :: env where
  "env_ready = env_idle\<lparr>os_readline := (\<lambda>h j.
     if j = 0 then RLine (''   Compiling myco v0.1.0'' @ [CHR 0x0A])
     else if j = 1 then REof
     else if h = 0 then RLine (''INFO Server2 listening on 0.0.0.0:3004'' @ [CHR 0x0A])
     else RLine (''INFO Server1 listening on 0.0.0.0:3002'' @ [CHR 0x0A]))\<rparr>"

lemma full_success_env_ready: "full_success env_ready"
  by (simp add: full_success_def proc_defs run_defs env_ready_def env_idle_def init_st_def)

lemma oracles_ordinary_env_ready: "oracles_ordinary env_ready"
  by (simp add: oracles_ordinary_def exec_raises_def env_ready_def env_idle_def)

theorem exit_code_zero_iff_success_witness:
  "signal_at env_ready = None \<and> oracles_ordinary env_ready \<and> full_success env_ready
   \<and> exit_code env_ready = Some 0"
proof -
  have a: "signal_at env_ready = None" by (simp add: env_ready_def env_idle_def)
  show ?thesis
    using a oracles_ordinary_env_ready full_success_env_ready
      exit_code_zero_iff_success [OF a oracles_ordinary_env_ready]
    by simp
qed


lemma not_full_success_env_sig: "\<not> full_success (env_sig 10)"
  by (simp add: full_success_def proc_defs run_defs env_sig_def env_idle_def init_st_def)

lemma main_env_silent: "fst (main env_silent init_st) = Blocked"
  by (simp add: proc_defs run_defs env_silent_def env_idle_def init_st_def)

text \<open>C9 at two failing inputs. The run that is interrupted while \<^verbatim>\<open>start_server2\<close> waits
  exits with status 0, although no server became ready and no client ran. The run whose
  first server lives and prints nothing does not exit at all: it stays in \<^verbatim>\<open>readline\<close>,
  where a server that does not become ready is to end the run with status 1.\<close>

theorem exit_status_zero_without_success:
  "exit_code (env_sig 10) = Some 0 \<and> \<not> full_success (env_sig 10)
   \<and> exit_code env_silent = None \<and> \<not> full_success env_silent"
proof -
  have "\<not> full_success env_silent"
    by (simp add: full_success_def proc_defs run_defs env_silent_def env_idle_def init_st_def)
  then show ?thesis
    using not_full_success_env_sig
    by (simp add: exit_code_def main_env_sig(1) main_env_silent)
qed

section \<open>Substring containment\<close>

lemma starts_with_iff: "starts_with p s \<longleftrightarrow> (\<exists>b. s = p @ b)"
  by (induction p s rule: starts_with.induct) auto

lemma contains_iff: "contains sub s \<longleftrightarrow> (\<exists>a b. s = a @ sub @ b)"
proof (induction s)
  case Nil
  show ?case by auto
next
  case (Cons c cs)
  show ?case
  proof
    assume "contains sub (c # cs)"
    then consider "starts_with sub (c # cs)" | "contains sub cs" by auto
    then show "\<exists>a b. c # cs = a @ sub @ b"
    proof cases
      case 1
      then obtain b where "c # cs = sub @ b" using starts_with_iff by blast
      then have "c # cs = [] @ sub @ b" by simp
      then show ?thesis by blast
    next
      case 2
      then obtain a b where "cs = a @ sub @ b" using Cons.IH by blast
      then have "c # cs = (c # a) @ sub @ b" by simp
      then show ?thesis by blast
    qed
  next
    assume "\<exists>a b. c # cs = a @ sub @ b"
    then obtain a b where ab: "c # cs = a @ sub @ b" by blast
    show "contains sub (c # cs)"
    proof (cases a)
      case Nil
      then have "starts_with sub (c # cs)" using ab starts_with_iff by auto
      then show ?thesis by simp
    next
      case (Cons x a')
      then have "cs = a' @ sub @ b" using ab by simp
      then have "contains sub cs" using Cons.IH by blast
      then show ?thesis by simp
    qed
  qed
qed

text \<open>A marker that neither begins nor ends with whitespace survives \<^verbatim>\<open>strip()\<close> wherever it
  stands in the line.\<close>

lemma dropWhile_keeps:
  assumes "m \<noteq> []" and "\<not> P (hd m)"
  shows "\<exists>a'. dropWhile P (a @ m @ b) = a' @ m @ b"
proof (induction a)
  case Nil
  have "dropWhile P (m @ b) = m @ b"
    using assms by (cases m) auto
  then have "dropWhile P ([] @ m @ b) = [] @ m @ b" by simp
  then show ?case by blast
next
  case (Cons x a)
  show ?case
  proof (cases "P x")
    case True
    then show ?thesis using Cons.IH by simp
  next
    case False
    then have "dropWhile P ((x # a) @ m @ b) = (x # a) @ m @ b" by simp
    then show ?thesis by blast
  qed
qed

lemma contains_strip:
  assumes "m \<noteq> []" and "\<not> isspace (hd m)" and "\<not> isspace (last m)"
  shows "contains m (strip (a @ m @ b))"
proof -
  obtain a' where 1: "dropWhile isspace (a @ m @ b) = a' @ m @ b"
    using dropWhile_keeps [of m isspace a b] assms(1,2) by blast
  have "rev m \<noteq> []" "\<not> isspace (hd (rev m))"
    using assms(1,3) by (simp_all add: hd_rev)
  then obtain b' where 2: "dropWhile isspace (rev b @ rev m @ rev a') = b' @ rev m @ rev a'"
    using dropWhile_keeps [of "rev m" isspace "rev b" "rev a'"] by blast
  have "strip (a @ m @ b) = a' @ m @ rev b'"
    by (simp add: strip_def 1 2)
  then show ?thesis using contains_iff by auto
qed

section \<open>Rounds of the readiness loop\<close>

text \<open>A read that lets the loop go on: a line without the marker, the end of the stream, or
  an error that the loop catches.\<close>

definition no_match :: "string \<Rightarrow> read_outcome \<Rightarrow> bool" where
  "no_match expected_output r = (case r of
      RLine l \<Rightarrow> \<not> contains expected_output (strip l)
    | RUndecodable \<Rightarrow> True
    | REof \<Rightarrow> True
    | RRaise e \<Rightarrow> is_OSError e \<or> e = UnicodeDecodeError
    | RHang \<Rightarrow> False)"

lemma wait_iter_no_match:
  assumes "quiet hdl env" and "returncode s p = None" and "os_poll env p (nq s p) = None"
    and "no_match expected (os_readline env p (nreads s p))"
  shows "\<exists>s'. wait_iter hdl env name expected p s = (Ret None, s')
     \<and> returncode s' p = None \<and> nq s' p = Suc (nq s p) \<and> nreads s' p = Suc (nreads s p)
     \<and> clock s' = clock s + read_dur env p (nreads s p) + 100
     \<and> trace s' = trace s @ [Sleep 100] \<and> processes s' = processes s"
  using assms
  by (cases "os_readline env p (nreads s p)")
     (auto simp: wait_iter_def poll_def readline_def sleep_def bnd_def thn_def try_except_def
        return_def raise_def quiet_def no_match_def)

lemma wait_iter_match:
  assumes "quiet hdl env" and "returncode s p = None" and "os_poll env p (nq s p) = None"
    and "os_readline env p (nreads s p) = RLine l" and "contains expected (strip l)"
  shows "\<exists>s'. wait_iter hdl env name expected p s = (Ret (Some True), s')
     \<and> returncode s' p = None \<and> nq s' p = Suc (nq s p) \<and> nreads s' p = Suc (nreads s p)
     \<and> trace s' = trace s @ [Log_ready name] \<and> processes s' = processes s"
  using assms
  by (auto simp: wait_iter_def poll_def readline_def emit_def bnd_def thn_def try_except_def
      return_def quiet_def)

lemma wait_iter_exited:
  assumes "quiet hdl env" and "returncode s p = None" and "os_poll env p (nq s p) = Some rc"
  shows "\<exists>s'. wait_iter hdl env name expected p s = (Ret (Some False), s')
     \<and> returncode s' p = Some rc \<and> nq s' p = Suc (nq s p) \<and> nreads s' p = nreads s p
     \<and> trace s' = trace s @ [Log_terminated name] \<and> processes s' = processes s"
  using assms
  by (auto simp: wait_iter_def poll_def emit_def bnd_def thn_def return_def quiet_def)


text \<open>The first \<open>k\<close> rounds find the process \<open>p\<close> running and read nothing that ends the loop;
  \<open>q0\<close> and \<open>r0\<close> number the next poll and the next read of \<open>p\<close>.\<close>

primrec silent_rounds :: "env \<Rightarrow> string \<Rightarrow> nat \<Rightarrow> nat \<Rightarrow> nat \<Rightarrow> nat \<Rightarrow> bool" where
  "silent_rounds env expected_output p q0 r0 0 = True"
| "silent_rounds env expected_output p q0 r0 (Suc k) =
     (os_poll env p q0 = None \<and> no_match expected_output (os_readline env p r0)
      \<and> silent_rounds env expected_output p (Suc q0) (Suc r0) k)"

text \<open>The time that \<open>k\<close> rounds take, in milliseconds: the read and the sleep of each.\<close>

primrec rounds_time :: "env \<Rightarrow> nat \<Rightarrow> nat \<Rightarrow> nat \<Rightarrow> nat" where
  "rounds_time env p r0 0 = 0"
| "rounds_time env p r0 (Suc k) = read_dur env p r0 + 100 + rounds_time env p (Suc r0) k"

lemma wait_loop_silent:
  assumes "quiet hdl env"
  shows "returncode s p = None \<Longrightarrow> silent_rounds env expected p (nq s p) (nreads s p) k \<Longrightarrow>
     int (clock s + rounds_time env p (nreads s p) k) - int start < timeout * 1000 \<Longrightarrow>
     \<exists>s'. wait_loop hdl env name expected p timeout start s
            = wait_loop hdl env name expected p timeout start s'
       \<and> returncode s' p = None \<and> nq s' p = nq s p + k \<and> nreads s' p = nreads s p + k
       \<and> clock s' = clock s + rounds_time env p (nreads s p) k
       \<and> trace s' = trace s @ replicate k (Sleep 100) \<and> processes s' = processes s"
proof (induction k arbitrary: s)
  case 0
  then show ?case by auto
next
  case (Suc k)
  have now: "int (clock s) - int start < timeout * 1000"
    using Suc.prems(3) by simp
  obtain s1 where s1: "wait_iter hdl env name expected p s = (Ret None, s1)"
    "returncode s1 p = None" "nq s1 p = Suc (nq s p)" "nreads s1 p = Suc (nreads s p)"
    "clock s1 = clock s + read_dur env p (nreads s p) + 100"
    "trace s1 = trace s @ [Sleep 100]" "processes s1 = processes s"
    using wait_iter_no_match [OF assms Suc.prems(1), of expected name] Suc.prems(2)
    by auto
  have step: "wait_loop hdl env name expected p timeout start s
      = wait_loop hdl env name expected p timeout start s1"
    by (subst wait_loop.simps) (simp add: now s1(1))
  have "silent_rounds env expected p (nq s1 p) (nreads s1 p) k"
    using Suc.prems(2) s1(3,4) by simp
  moreover have "int (clock s1 + rounds_time env p (nreads s1 p) k) - int start
      < timeout * 1000"
    using Suc.prems(3) s1(4,5) by simp
  ultimately obtain s' where s': "wait_loop hdl env name expected p timeout start s1
        = wait_loop hdl env name expected p timeout start s'"
      "returncode s' p = None" "nq s' p = nq s1 p + k" "nreads s' p = nreads s1 p + k"
      "clock s' = clock s1 + rounds_time env p (nreads s1 p) k"
      "trace s' = trace s1 @ replicate k (Sleep 100)" "processes s' = processes s1"
    using Suc.IH [OF s1(2)] by blast
  have "trace s' = trace s @ replicate (Suc k) (Sleep 100)"
    using s'(6) s1(6) by (simp add: replicate_append_same)
  then show ?case
    using step s' s1 by (intro exI [of _ s']) simp
qed

lemma wait_ready:
  assumes "quiet hdl env" and "returncode s p = None"
    and "silent_rounds env expected p (nq s p) (nreads s p) k"
    and "os_poll env p (nq s p + k) = None"
    and "os_readline env p (nreads s p + k) = RLine l" and "contains expected (strip l)"
    and "int (rounds_time env p (nreads s p) k) < timeout * 1000"
  shows "\<exists>s'. wait_for_server_ready hdl env name expected p timeout s = (Ret True, s')
     \<and> nq s' p = nq s p + k + 1 \<and> nreads s' p = nreads s p + k + 1
     \<and> trace s' = trace s @ replicate k (Sleep 100) @ [Log_ready name]
     \<and> processes s' = processes s"
proof -
  have t: "int (clock s + rounds_time env p (nreads s p) k) - int (clock s) < timeout * 1000"
    using assms(7) by simp
  obtain s1 where s1: "wait_loop hdl env name expected p timeout (clock s) s
        = wait_loop hdl env name expected p timeout (clock s) s1"
      "returncode s1 p = None" "nq s1 p = nq s p + k" "nreads s1 p = nreads s p + k"
      "clock s1 = clock s + rounds_time env p (nreads s p) k"
      "trace s1 = trace s @ replicate k (Sleep 100)" "processes s1 = processes s"
    using wait_loop_silent [OF assms(1,2,3) t, of name] by blast
  obtain s2 where s2: "wait_iter hdl env name expected p s1 = (Ret (Some True), s2)"
      "nq s2 p = Suc (nq s1 p)" "nreads s2 p = Suc (nreads s1 p)"
      "trace s2 = trace s1 @ [Log_ready name]" "processes s2 = processes s1"
    using wait_iter_match [OF assms(1) s1(2), of l expected name] assms(4,5,6) s1(3,4)
    by auto
  have "wait_loop hdl env name expected p timeout (clock s) s1 = Some (Ret True, s2)"
    using t s1(5) by (subst wait_loop.simps) (simp add: s2(1))
  then show ?thesis
    using s1 s2 by (intro exI [of _ s2]) (simp add: wait_for_server_ready_def)
qed

lemma wait_exited:
  assumes "quiet hdl env" and "returncode s p = None"
    and "silent_rounds env expected p (nq s p) (nreads s p) k"
    and "os_poll env p (nq s p + k) = Some rc"
    and "int (rounds_time env p (nreads s p) k) < timeout * 1000"
  shows "\<exists>s'. wait_for_server_ready hdl env name expected p timeout s = (Ret False, s')
     \<and> returncode s' p = Some rc
     \<and> trace s' = trace s @ replicate k (Sleep 100) @ [Log_terminated name]
     \<and> processes s' = processes s"
proof -
  have t: "int (clock s + rounds_time env p (nreads s p) k) - int (clock s) < timeout * 1000"
    using assms(5) by simp
  obtain s1 where s1: "wait_loop hdl env name expected p timeout (clock s) s
        = wait_loop hdl env name expected p timeout (clock s) s1"
      "returncode s1 p = None" "nq s1 p = nq s p + k" "nreads s1 p = nreads s p + k"
      "clock s1 = clock s + rounds_time env p (nreads s p) k"
      "trace s1 = trace s @ replicate k (Sleep 100)" "processes s1 = processes s"
    using wait_loop_silent [OF assms(1,2,3) t, of name] by blast
  obtain s2 where s2: "wait_iter hdl env name expected p s1 = (Ret (Some False), s2)"
      "returncode s2 p = Some rc"
      "trace s2 = trace s1 @ [Log_terminated name]" "processes s2 = processes s1"
    using wait_iter_exited [OF assms(1) s1(2), of rc name expected] assms(4) s1(3)
    by auto
  have "wait_loop hdl env name expected p timeout (clock s) s1 = Some (Ret False, s2)"
    using t s1(5) by (subst wait_loop.simps) (simp add: s2(1))
  then show ?thesis
    using s1 s2 by (intro exI [of _ s2]) (simp add: wait_for_server_ready_def)
qed


section \<open>A server that becomes ready, and one that exits first\<close>

lemma role_marker_shape:
  "role_marker role \<noteq> [] \<and> \<not> isspace (hd (role_marker role))
   \<and> \<not> isspace (last (role_marker role))"
  by (cases role) (simp_all add: isspace_def)

text \<open>What the loop does with a marker line that it reads in time. For each dependency
  role: the process runs and prints \<open>k\<close> lines without the marker (or nothing) in the first
  \<open>k\<close> rounds, and in the next round, begun before the timeout, the loop reads a line that
  has the marker of the role somewhere in it. Then
  \<^verbatim>\<open>wait_for_server_ready\<close> returns \<^verbatim>\<open>True\<close>; it reports readiness once, at the end, and it
  has polled and read exactly \<open>k + 1\<close> times: it does not poll again after the match.\<close>

theorem marker_line_gives_ready:
  assumes "signal_at env = None" and "returncode s p = None"
    and "silent_rounds env (role_marker role) p (nq s p) (nreads s p) k"
    and "os_poll env p (nq s p + k) = None"
    and "os_readline env p (nreads s p + k) = RLine (a @ role_marker role @ b)"
    and "int (rounds_time env p (nreads s p) k) < role_timeout role * 1000"
  shows "\<exists>s'. wait_for_server_ready hdl env (role_name role) (role_marker role) p
        (role_timeout role) s = (Ret True, s')
     \<and> nq s' p = nq s p + k + 1 \<and> nreads s' p = nreads s p + k + 1
     \<and> trace s' = trace s @ replicate k (Sleep 100) @ [Log_ready (role_name role)]"
proof -
  have q: "quiet hdl env" using assms(1) by (rule quiet_no_signal)
  have c: "contains (role_marker role) (strip (a @ role_marker role @ b))"
    using role_marker_shape [of role] by (simp add: contains_strip)
  show ?thesis
    using wait_ready [OF q assms(2,3,4,5) c assms(6), of "role_name role"] by blast
qed

lemma start_server_unfold:
  "start_server hdl env role =
     try_except
       (bnd (popen hdl env (role_cmd role)) (\<lambda>p.
          thn (case role of Server2 \<Rightarrow> track_server2 p | Server1 \<Rightarrow> track_server1 p)
              (wait_for_server_ready hdl env (role_name role) (role_marker role) p
                 (role_timeout role))))
       os_or_subprocess
       (return False)"
  by (cases role) (simp_all add: start_server2_def start_server1_def)

theorem marker_line_gives_ready_witness:
  "signal_at env_ready = None \<and> returncode tracked_st 0 = None
   \<and> silent_rounds env_ready (role_marker Server2) 0 (nq tracked_st 0) (nreads tracked_st 0) 2
   \<and> os_poll env_ready 0 (nq tracked_st 0 + 2) = None
   \<and> os_readline env_ready 0 (nreads tracked_st 0 + 2) =
       RLine (''INFO '' @ role_marker Server2 @ ('' 0.0.0.0:3004'' @ [CHR 0x0A]))
   \<and> int (rounds_time env_ready 0 (nreads tracked_st 0) 2) < role_timeout Server2 * 1000
   \<and> (\<exists>s'. wait_for_server_ready (return ()) env_ready (role_name Server2)
          (role_marker Server2) 0 (role_timeout Server2) tracked_st = (Ret True, s')
        \<and> nq s' 0 = nq tracked_st 0 + 2 + 1 \<and> nreads s' 0 = nreads tracked_st 0 + 2 + 1
        \<and> trace s' = trace tracked_st @ replicate 2 (Sleep 100)
             @ [Log_ready (role_name Server2)])"
proof -
  have 1: "signal_at env_ready = None" by (simp add: env_ready_def env_idle_def)
  have 2: "returncode tracked_st 0 = None" by (simp add: tracked_st_def init_st_def)
  have 3: "silent_rounds env_ready (role_marker Server2) 0 (nq tracked_st 0)
      (nreads tracked_st 0) 2"
    by (simp add: eval_nat_numeral tracked_st_def init_st_def env_ready_def env_idle_def
        no_match_def strip_def isspace_def)
  have 4: "os_poll env_ready 0 (nq tracked_st 0 + 2) = None"
    by (simp add: env_ready_def env_idle_def)
  have 5: "os_readline env_ready 0 (nreads tracked_st 0 + 2) =
       RLine (''INFO '' @ role_marker Server2 @ ('' 0.0.0.0:3004'' @ [CHR 0x0A]))"
    by (simp add: env_ready_def env_idle_def tracked_st_def init_st_def)
  have 6: "int (rounds_time env_ready 0 (nreads tracked_st 0) 2) < role_timeout Server2 * 1000"
    by (simp add: eval_nat_numeral env_ready_def env_idle_def)
  show ?thesis
    using 1 2 3 4 5 6 marker_line_gives_ready [OF 1 2 3 4 5 6, of "return ()"] by blast
qed

section \<open>The readiness loop ends\<close>

lemma wait_iter_clock:
  assumes "quiet hdl env" and "wait_iter hdl env name expected p s = (Ret None, s')"
  shows "clock s + 100 \<le> clock s'"
  using assms
  by (auto simp: wait_iter_def poll_def readline_def sleep_def emit_def bnd_def thn_def
      try_except_def return_def raise_def quiet_def
      split: option.splits read_outcome.splits if_splits)

text \<open>Every round that goes on takes a tenth of a second at least, so that without a signal
  the loop of \<^verbatim>\<open>wait_for_server_ready\<close> comes to an end: the call returns, raises, or is
  blocked in a \<^verbatim>\<open>readline\<close>.\<close>

lemma wait_loop_ends:
  assumes "quiet hdl env"
  shows "\<exists>r. wait_loop hdl env name expected p timeout start s = Some r"
proof (induction "nat (timeout * 1000 - (int (clock s) - int start))" arbitrary: s
    rule: less_induct)
  case less
  show ?case
  proof (cases "int (clock s) - int start < timeout * 1000")
    case False
    then show ?thesis by (subst wait_loop.simps) simp
  next
    case True
    obtain r s1 where it: "wait_iter hdl env name expected p s = (r, s1)"
      by (cases "wait_iter hdl env name expected p s")
    show ?thesis
    proof (cases "r = Ret None")
      case False
      then show ?thesis
        using True it
        by (subst wait_loop.simps) (auto split: res.splits option.splits)
    next
      case r: True
      have "clock s + 100 \<le> clock s1"
        using wait_iter_clock [OF assms] it r by blast
      then have "nat (timeout * 1000 - (int (clock s1) - int start))
          < nat (timeout * 1000 - (int (clock s) - int start))"
        using True by linarith
      then obtain y where "wait_loop hdl env name expected p timeout start s1 = Some y"
        using less by blast
      then show ?thesis
        using True it r by (subst wait_loop.simps) simp
    qed
  qed
qed

section \<open>A loop that runs out of time\<close>

lemma wait_timed_out:
  assumes "quiet hdl env" and "returncode s p = None"
    and "silent_rounds env expected p (nq s p) (nreads s p) k"
    and "os_poll env p (nq s p + k) = None"
    and "no_match expected (os_readline env p (nreads s p + k))"
    and "int (rounds_time env p (nreads s p) k) < timeout * 1000"
    and "timeout * 1000 \<le>
      int (rounds_time env p (nreads s p) k + read_dur env p (nreads s p + k) + 100)"
  shows "\<exists>s'. wait_for_server_ready hdl env name expected p timeout s = (Ret False, s')
     \<and> returncode s' p = None \<and> nreads s' p = nreads s p + k + 1
     \<and> trace s' = trace s @ replicate (Suc k) (Sleep 100) @ [Log_timeout name]
     \<and> processes s' = processes s"
proof -
  have t: "int (clock s + rounds_time env p (nreads s p) k) - int (clock s) < timeout * 1000"
    using assms(6) by simp
  obtain s1 where s1: "wait_loop hdl env name expected p timeout (clock s) s
        = wait_loop hdl env name expected p timeout (clock s) s1"
      "returncode s1 p = None" "nq s1 p = nq s p + k" "nreads s1 p = nreads s p + k"
      "clock s1 = clock s + rounds_time env p (nreads s p) k"
      "trace s1 = trace s @ replicate k (Sleep 100)" "processes s1 = processes s"
    using wait_loop_silent [OF assms(1,2,3) t, of name] by blast
  obtain s2 where s2: "wait_iter hdl env name expected p s1 = (Ret None, s2)"
      "returncode s2 p = None" "nreads s2 p = Suc (nreads s1 p)"
      "clock s2 = clock s1 + read_dur env p (nreads s1 p) + 100"
      "trace s2 = trace s1 @ [Sleep 100]" "processes s2 = processes s1"
    using wait_iter_no_match [OF assms(1) s1(2), of expected name] assms(4,5) s1(3,4)
    by auto
  have a: "wait_loop hdl env name expected p timeout (clock s) s1
      = wait_loop hdl env name expected p timeout (clock s) s2"
    using t s1(5) by (subst wait_loop.simps) (simp add: s2(1))
  have late: "\<not> int (clock s2) - int (clock s) < timeout * 1000"
    using assms(7) s2(4) s1(4,5) by simp
  have b: "wait_loop hdl env name expected p timeout (clock s) s2
      = Some (Ret False, s2\<lparr>trace := trace s2 @ [Log_timeout name]\<rparr>)"
    using late by (subst wait_loop.simps) simp
  have tr: "trace s2 = trace s @ replicate (Suc k) (Sleep 100)"
    using s2(5) s1(6) by (simp add: replicate_append_same)
  show ?thesis
    using s1 s2 tr
    by (intro exI [of _ "s2\<lparr>trace := trace s2 @ [Log_timeout name]\<rparr>"])
       (simp add: wait_for_server_ready_def a b)
qed

lemma silent_rounds_upto:
  "(\<And>j. j < q + k \<Longrightarrow> os_poll env p j = None) \<Longrightarrow>
   (\<And>j. j < r + k \<Longrightarrow> no_match m (os_readline env p j)) \<Longrightarrow>
   silent_rounds env m p q r k"
proof (induction k arbitrary: q r)
  case 0
  show ?case by simp
next
  case (Suc k)
  have "silent_rounds env m p (Suc q) (Suc r) k"
    by (rule Suc.IH) (use Suc.prems in auto)
  then show ?case using Suc.prems(1) [of q] Suc.prems(2) [of r] by simp
qed

lemma rounds_time_const:
  "(\<And>j. read_dur env p j = d) \<Longrightarrow> rounds_time env p r k = k * (d + 100)"
  by (induction k arbitrary: r) simp_all

text \<open>A launch that succeeds: the new process is tracked, and the start function returns
  what \<^verbatim>\<open>wait_for_server_ready\<close> returns.\<close>

lemma start_server_launched:
  assumes "quiet hdl env" and "spawn env (Suc (tick s)) (role_cmd role) = None"
  shows "\<exists>t. returncode t (nobjs s) = None \<and> nq t (nobjs s) = 0 \<and> nreads t (nobjs s) = 0
     \<and> processes t = processes s @ [nobjs s]
     \<and> (\<forall>b s1. wait_for_server_ready hdl env (role_name role) (role_marker role) (nobjs s)
            (role_timeout role) t = (Ret b, s1) \<longrightarrow>
          start_server hdl env role s = (Ret b, s1))"
proof -
  let ?p = "nobjs s"
  let ?s0 = "s\<lparr>tick := Suc (tick s), returncode := (returncode s)(?p := None),
      nq := (nq s)(?p := 0), nreads := (nreads s)(?p := 0), nobjs := Suc ?p,
      trace := trace s @ [Spawned (role_cmd role) ?p]\<rparr>"
  have po: "popen hdl env (role_cmd role) s = (Ret ?p, ?s0)"
    using assms by (simp add: popen_def bnd_def quiet_def)
  obtain t where t: "(case role of Server2 \<Rightarrow> track_server2 ?p | Server1 \<Rightarrow> track_server1 ?p) ?s0
        = (Ret (), t)"
      "returncode t ?p = None" "nq t ?p = 0" "nreads t ?p = 0"
      "processes t = processes s @ [?p]"
    by (cases role) (simp_all add: track_server2_def track_server1_def)
  have "start_server hdl env role s = (Ret b, s1)"
    if "wait_for_server_ready hdl env (role_name role) (role_marker role) ?p
        (role_timeout role) t = (Ret b, s1)" for b s1
    using that by (simp add: start_server_unfold try_except_def bnd_def thn_def po t(1))
  then show ?thesis using t by blast
qed


section \<open>A server that exits before it is ready\<close>

text \<open>Every launched process runs for two rounds, closes its output without a word, and
  has exited with status 1 at the third poll.\<close>

definition env_exits :: env where
  "env_exits = env_idle\<lparr>os_poll := (\<lambda>_ j. if j < 2 then None else Some 1)\<rparr>"

text \<open>\<^verbatim>\<open>just\<close> cannot be launched.\<close>

definition env_no_launch :: env where
  "env_no_launch = env_idle\<lparr>spawn := (\<lambda>_ _. Some FileNotFoundError)\<rparr>"

lemma start_server2_env_exits:
  "fst (start_server (return ()) env_exits Server2 init_st) = Ret False"
  by (simp add: proc_defs run_defs env_exits_def env_idle_def init_st_def)

lemma start_server2_env_no_launch:
  "fst (start_server (return ()) env_no_launch Server2 init_st) = Ret False"
  by (simp add: proc_defs run_defs env_no_launch_def env_idle_def init_st_def)

lemma start_server2_env_idle:
  "fst (start_server (return ()) env_idle Server2 init_st) = Ret False"
proof -
  obtain t where t: "returncode t (nobjs init_st) = None" "nq t (nobjs init_st) = 0"
      "nreads t (nobjs init_st) = 0"
      "\<forall>b s1. wait_for_server_ready (return ()) env_idle (role_name Server2)
            (role_marker Server2) (nobjs init_st) (role_timeout Server2) t = (Ret b, s1) \<longrightarrow>
          start_server (return ()) env_idle Server2 init_st = (Ret b, s1)"
    using start_server_launched [OF quiet_return, of env_idle init_st Server2]
    by (auto simp: env_idle_def)
  let ?p = "nobjs init_st"
  have sr: "silent_rounds env_idle (role_marker Server2) ?p (nq t ?p) (nreads t ?p) 299"
    by (rule silent_rounds_upto) (simp_all add: env_idle_def no_match_def)
  have rt: "rounds_time env_idle ?p r k = k * 100" for r k
    using rounds_time_const [of env_idle ?p 0 r k] by (simp add: env_idle_def)
  have po: "os_poll env_idle ?p (nq t ?p + 299) = None"
    by (simp add: env_idle_def)
  have nm: "no_match (role_marker Server2) (os_readline env_idle ?p (nreads t ?p + 299))"
    by (simp add: env_idle_def no_match_def)
  have early: "int (rounds_time env_idle ?p (nreads t ?p) 299) < role_timeout Server2 * 1000"
    by (simp add: rt)
  have late: "role_timeout Server2 * 1000 \<le> int (rounds_time env_idle ?p (nreads t ?p) 299
      + read_dur env_idle ?p (nreads t ?p + 299) + 100)"
    by (simp add: rt)
  obtain s1 where "wait_for_server_ready (return ()) env_idle (role_name Server2)
      (role_marker Server2) ?p (role_timeout Server2) t = (Ret False, s1)"
    using wait_timed_out [OF quiet_return t(1) sr po nm early late, of "role_name Server2"]
    by blast
  then have "start_server (return ()) env_idle Server2 init_st = (Ret False, s1)"
    using t(4) by blast
  then show ?thesis by (simp only: fst_conv)
qed

text \<open>C5, as stated, fails: the start function returns a bare \<^verbatim>\<open>False\<close>. It is the same value
  when the process has exited before its marker, when the process lives and the wait times
  out, and when the launch itself fails: the value returned carries no outcome.\<close>

theorem start_server_returns_bare_false:
  "fst (start_server (return ()) env_exits Server2 init_st) = Ret False
   \<and> fst (start_server (return ()) env_idle Server2 init_st) = Ret False
   \<and> fst (start_server (return ()) env_no_launch Server2 init_st) = Ret False"
  using start_server2_env_exits start_server2_env_idle start_server2_env_no_launch
  by blast

text \<open>C5, amended. For each dependency role: the process is launched, runs for \<open>k\<close> rounds
  without a marker line, and is found exited by the next poll, in a round begun before the
  timeout. Then the start function returns \<^verbatim>\<open>False\<close>, its last message being that the process
  terminated unexpectedly; the process is in \<^verbatim>\<open>self.processes\<close> with its return code; the
  pass of \<^verbatim>\<open>cleanup\<close> over the tracked processes returns without raising; and neither that
  pass nor the rest of \<^verbatim>\<open>cleanup\<close> sends \<^verbatim>\<open>terminate\<close> or \<^verbatim>\<open>kill\<close> to the dead process.\<close>

theorem exit_before_marker:
  assumes "signal_at env = None"
    and "spawn env (Suc (tick s)) (role_cmd role) = None"
    and "silent_rounds env (role_marker role) (nobjs s) 0 0 k"
    and "os_poll env (nobjs s) k = Some rc"
    and "int (rounds_time env (nobjs s) 0 k) < role_timeout role * 1000"
  shows "\<exists>s1 s2 evs evs'. start_server hdl env role s = (Ret False, s1)
     \<and> last (trace s1) = Log_terminated (role_name role)
     \<and> nobjs s \<in> set (processes s1) \<and> returncode s1 (nobjs s) = Some rc
     \<and> for_each (processes s1) (reap hdl env) s1 = (Ret (), s2)
     \<and> trace s2 = trace s1 @ evs
     \<and> Terminate (nobjs s) \<notin> set evs \<and> Kill (nobjs s) \<notin> set evs
     \<and> trace (snd (cleanup hdl env s1)) = trace s1 @ evs'
     \<and> Terminate (nobjs s) \<notin> set evs' \<and> Kill (nobjs s) \<notin> set evs'"
proof -
  let ?p = "nobjs s"
  have q: "quiet hdl env" using assms(1) by (rule quiet_no_signal)
  obtain t where t: "returncode t ?p = None" "nq t ?p = 0" "nreads t ?p = 0"
      "processes t = processes s @ [?p]"
      "\<forall>b s1. wait_for_server_ready hdl env (role_name role) (role_marker role) ?p
            (role_timeout role) t = (Ret b, s1) \<longrightarrow>
          start_server hdl env role s = (Ret b, s1)"
    using start_server_launched [OF q assms(2)] by blast
  obtain s1 where s1: "wait_for_server_ready hdl env (role_name role) (role_marker role) ?p
        (role_timeout role) t = (Ret False, s1)"
      "returncode s1 ?p = Some rc"
      "trace s1 = trace t @ replicate k (Sleep 100) @ [Log_terminated (role_name role)]"
      "processes s1 = processes t"
    using wait_exited [OF q t(1), of "role_marker role" k rc "role_timeout role"
        "role_name role"] assms(3,4,5) t(2,3)
    by auto
  have st: "start_server hdl env role s = (Ret False, s1)"
    using t(5) s1(1) by blast
  let ?pass = "for_each (processes s1) (reap hdl env)"
  have "only (\<lambda>_. False) ?pass"
    by (rule only_for_each) (rule only_reap [OF q])
  then obtain s2 where s2: "?pass s1 = (Ret (), s2)"
    using only_RetD [of ?pass s1] by auto
  have "preserves spares ?pass"
    by (rule admits_for_each [OF admits_spares [OF q]]) (rule spares_reap [OF q])
  then have "spares s1 s2"
    using s2 unfolding preserves_def by (metis snd_conv)
  then obtain evs where evs: "trace s2 = trace s1 @ evs"
      "\<forall>h. Terminate h \<in> set evs \<or> Kill h \<in> set evs \<longrightarrow> returncode s1 h = None"
    unfolding spares_def by blast
  have "spares s1 (snd (cleanup hdl env s1))"
    using spares_cleanup [OF q] unfolding preserves_def by blast
  then obtain evs' where evs': "trace (snd (cleanup hdl env s1)) = trace s1 @ evs'"
      "\<forall>h. Terminate h \<in> set evs' \<or> Kill h \<in> set evs' \<longrightarrow> returncode s1 h = None"
    unfolding spares_def by blast
  have "Terminate ?p \<notin> set evs \<and> Kill ?p \<notin> set evs"
    using evs(2) s1(2) by auto
  moreover have "Terminate ?p \<notin> set evs' \<and> Kill ?p \<notin> set evs'"
    using evs'(2) s1(2) by auto
  ultimately show ?thesis
    using st s1 t(4) s2 evs(1) evs'(1)
    by (intro exI [of _ s1] exI [of _ s2] exI [of _ evs] exI [of _ evs']) simp
qed

theorem exit_before_marker_witness:
  "signal_at env_exits = None
   \<and> spawn env_exits (Suc (tick init_st)) (role_cmd Server1) = None
   \<and> silent_rounds env_exits (role_marker Server1) (nobjs init_st) 0 0 2
   \<and> os_poll env_exits (nobjs init_st) 2 = Some 1
   \<and> int (rounds_time env_exits (nobjs init_st) 0 2) < role_timeout Server1 * 1000
   \<and> (\<exists>s1 s2 evs evs'. start_server (return ()) env_exits Server1 init_st = (Ret False, s1)
        \<and> last (trace s1) = Log_terminated (role_name Server1)
        \<and> nobjs init_st \<in> set (processes s1) \<and> returncode s1 (nobjs init_st) = Some 1
        \<and> for_each (processes s1) (reap (return ()) env_exits) s1 = (Ret (), s2)
        \<and> trace s2 = trace s1 @ evs
        \<and> Terminate (nobjs init_st) \<notin> set evs \<and> Kill (nobjs init_st) \<notin> set evs
        \<and> trace (snd (cleanup (return ()) env_exits s1)) = trace s1 @ evs'
        \<and> Terminate (nobjs init_st) \<notin> set evs' \<and> Kill (nobjs init_st) \<notin> set evs')"
proof -
  have 1: "signal_at env_exits = None" by (simp add: env_exits_def env_idle_def)
  have 3: "spawn env_exits (Suc (tick init_st)) (role_cmd Server1) = None"
    by (simp add: env_exits_def env_idle_def)
  have 4: "silent_rounds env_exits (role_marker Server1) (nobjs init_st) 0 0 2"
    by (simp add: eval_nat_numeral env_exits_def env_idle_def no_match_def)
  have 5: "os_poll env_exits (nobjs init_st) 2 = Some 1"
    by (simp add: env_exits_def env_idle_def)
  have 6: "int (rounds_time env_exits (nobjs init_st) 0 2) < role_timeout Server1 * 1000"
    by (simp add: eval_nat_numeral env_exits_def env_idle_def)
  show ?thesis
    using 1 3 4 5 6 exit_before_marker [OF 1 3 4 5 6, of "return ()"] by blast
qed


section \<open>A marker behind many lines\<close>

text \<open>The server prints 300 lines of the build tool and then its marker line, all at once:
  every line is in the pipe when the wait begins, and no read takes any time.\<close>

definition env_many :: env where
  "env_many = env_idle\<lparr>os_readline := (\<lambda>_ j.
     if j < 300 then RLine (''   Compiling dependency'' @ [CHR 0x0A])
     else RLine (''Server2 listening on 0.0.0.0:3004'' @ [CHR 0x0A]))\<rparr>"

text \<open>C6 at a failing input: the marker line is printed at once, behind 300 other lines. The
  loop reads one line in a round and sleeps a tenth of a second after each line that does
  not match, so that after 300 rounds its 30 seconds are over: it returns \<^verbatim>\<open>False\<close> with the
  message that the server did not become ready, and the marker line is never read.\<close>

theorem marker_behind_many_lines_times_out:
  "os_readline env_many 0 300 = RLine (''Server2 listening on 0.0.0.0:3004'' @ [CHR 0x0A])
   \<and> rounds_time env_many 0 0 301 = 30100
   \<and> (\<exists>s'. wait_for_server_ready (return ()) env_many ''Server2'' ''Server2 listening on'' 0 30
          tracked_st = (Ret False, s')
        \<and> nreads s' 0 = 300
        \<and> trace s' = replicate 300 (Sleep 100) @ [Log_timeout ''Server2''])"
proof -
  have rc: "returncode tracked_st 0 = None" by (simp add: tracked_st_def init_st_def)
  have z: "nq tracked_st 0 = 0" "nreads tracked_st 0 = 0" "trace tracked_st = []"
    by (simp_all add: tracked_st_def init_st_def)
  have sr: "silent_rounds env_many ''Server2 listening on'' 0 (nq tracked_st 0)
      (nreads tracked_st 0) 299"
    by (rule silent_rounds_upto)
       (simp_all add: z env_many_def env_idle_def no_match_def strip_def isspace_def)
  have rt: "rounds_time env_many 0 r k = k * 100" for r k
    using rounds_time_const [of env_many 0 0 r k] by (simp add: env_many_def env_idle_def)
  have po: "os_poll env_many 0 (nq tracked_st 0 + 299) = None"
    by (simp add: env_many_def env_idle_def)
  have nm: "no_match ''Server2 listening on'' (os_readline env_many 0 (nreads tracked_st 0 + 299))"
    by (simp add: z env_many_def env_idle_def no_match_def strip_def isspace_def)
  have early: "int (rounds_time env_many 0 (nreads tracked_st 0) 299) < 30 * 1000"
    by (simp add: rt)
  have late: "30 * 1000 \<le> int (rounds_time env_many 0 (nreads tracked_st 0) 299
      + read_dur env_many 0 (nreads tracked_st 0 + 299) + 100)"
    by (simp add: rt)
  obtain s' where s': "wait_for_server_ready (return ()) env_many ''Server2''
        ''Server2 listening on'' 0 30 tracked_st = (Ret False, s')"
      "nreads s' 0 = nreads tracked_st 0 + 299 + 1"
      "trace s' = trace tracked_st @ replicate (Suc 299) (Sleep 100) @ [Log_timeout ''Server2'']"
    using wait_timed_out [OF quiet_return rc sr po nm early late, of "''Server2''"]
    by blast
  have "os_readline env_many 0 300 = RLine (''Server2 listening on 0.0.0.0:3004'' @ [CHR 0x0A])"
    by (simp add: env_many_def env_idle_def)
  moreover have "rounds_time env_many 0 0 301 = 30100" by (simp add: rt)
  moreover have "nreads s' 0 = 300" using s'(2) z by simp
  moreover have "trace s' = replicate 300 (Sleep 100) @ [Log_timeout ''Server2'']"
    using s'(3) z by simp
  ultimately show ?thesis using s'(1) by blast
qed

section \<open>A failure that cleanup does not catch\<close>

text \<open>The output of \<^verbatim>\<open>netstat\<close> is not valid text: \<^verbatim>\<open>subprocess.run(..., text=True)\<close> raises
  \<^verbatim>\<open>UnicodeDecodeError\<close>.\<close>

definition env_garbled :: env where
  "env_garbled = env_idle\<lparr>exec := (\<lambda>_ argv.
     if argv = [''netstat'', ''-tulpn''] then Inl UnicodeDecodeError else Inr (1, []))\<rparr>"

text \<open>C7 at a failing input: one process is tracked and the output of \<^verbatim>\<open>netstat\<close> cannot be
  decoded. The \<^verbatim>\<open>except\<close> clauses of \<^verbatim>\<open>cleanup_ports\<close> catch \<^verbatim>\<open>OSError\<close> and \<^verbatim>\<open>SubprocessError\<close>
  only, and \<^verbatim>\<open>cleanup\<close> calls \<^verbatim>\<open>cleanup_ports\<close> outside any \<^verbatim>\<open>try\<close>: the error leaves
  \<^verbatim>\<open>cleanup\<close>, and the rest of the pass (the second port, \<^verbatim>\<open>pgrep\<close>, \<^verbatim>\<open>pkill\<close>) is not run.\<close>

theorem cleanup_propagates_decode_error:
  "fst (cleanup (return ()) env_garbled tracked_st) = Raise UnicodeDecodeError
   \<and> trace (snd (cleanup (return ()) env_garbled tracked_st)) =
       [Cleanup_begin, Terminate 0, Ran [''lsof'', ''-ti'', '':3002''] 1,
        Failed [''netstat'', ''-tulpn''] UnicodeDecodeError]"
  by (simp add: proc_defs run_defs env_garbled_def env_idle_def tracked_st_def init_st_def)

end
